theory Spec2Isabelle
  imports Complex_Main "HOL-Library.Sublist"
begin

section \<open>Order-table validation: the model\<close>

text \<open>
  The development follows \<^verbatim>\<open>src/app.py\<close>: the helper \<^verbatim>\<open>validate_date\<close>, the
  row validator \<^verbatim>\<open>validate_row\<close>, the validation loop over the table with its
  statistics, the error aggregation of the dashboard and the error filter of the
  error page. The widgets, charts and downloads around them are not modelled.

  A Python \<^verbatim>\<open>str\<close> is a \<^typ>\<open>string\<close>: a list of characters with code points
  below 256. On these, the digits of the regular expression class \<^verbatim>\<open>\d\<close> are
  \<^verbatim>\<open>0\<close> to \<^verbatim>\<open>9\<close>.
\<close>

subsection \<open>Strings\<close>

text \<open>\<^verbatim>\<open>str.isspace\<close> on one character (code points below 256).\<close>

definition is_space :: "char \<Rightarrow> bool" where
  "is_space c = (of_char c \<in> {9::nat, 10, 11, 12, 13, 28, 29, 30, 31, 32, 133, 160})"

text \<open>\<^verbatim>\<open>s.strip()\<close>: whitespace removed at both ends.\<close>

definition str_strip :: "string \<Rightarrow> string" where
  "str_strip s = rev (dropWhile is_space (rev (dropWhile is_space s)))"

text \<open>\<^verbatim>\<open>sep.join(xs)\<close>.\<close>

fun str_join :: "string \<Rightarrow> string list \<Rightarrow> string" where
  "str_join sep [] = []"
| "str_join sep [x] = x"
| "str_join sep (x # y # ys) = x @ sep @ str_join sep (y # ys)"

text \<open>
  \<^verbatim>\<open>s.split(sep)\<close>: the text is cut at every occurrence of the separator, scanning
  from the left; \<open>acc\<close> holds the characters of the current piece, reversed. Python
  raises \<^verbatim>\<open>ValueError\<close> on an empty separator; the source only passes the literal
  \<^verbatim>\<open>"; "\<close>, and with an empty separator the function below never cuts.
\<close>

fun split_from :: "string \<Rightarrow> string \<Rightarrow> string \<Rightarrow> string list" where
  "split_from sep acc [] = [rev acc]"
| "split_from sep acc (c # cs) =
     (if sep \<noteq> [] \<and> prefix sep (c # cs)
      then rev acc # split_from sep [] (drop (length sep) (c # cs))
      else split_from sep (c # acc) cs)"

definition str_split :: "string \<Rightarrow> string \<Rightarrow> string list" where
  "str_split s sep = split_from sep [] s"

text \<open>\<^verbatim>\<open>needle in hay\<close> on two strings: \<open>needle\<close> occurs in \<open>hay\<close> as a contiguous piece.\<close>

fun str_contains :: "string \<Rightarrow> string \<Rightarrow> bool" where
  "str_contains needle [] = (needle = [])"
| "str_contains needle (c # cs) = (prefix needle (c # cs) \<or> str_contains needle cs)"

definition is_digit :: "char \<Rightarrow> bool" where
  "is_digit c = (c \<in> set ''0123456789'')"

definition is_nonzero_digit :: "char \<Rightarrow> bool" where
  "is_nonzero_digit c = (c \<in> set ''123456789'')"

definition digit_val :: "char \<Rightarrow> nat" where
  "digit_val c = of_char c - 48"

text \<open>The number a string of decimal digits denotes.\<close>

definition nat_of_digits :: "string \<Rightarrow> nat" where
  "nat_of_digits ds = foldl (\<lambda>n c. 10 * n + digit_val c) 0 ds"

subsection \<open>\<^verbatim>\<open>datetime.strptime\<close> for the two formats of the source\<close>

text \<open>
  \<^verbatim>\<open>strptime\<close> compiles a format into a regular expression with one group per
  directive, matches it at the start of the text, refuses text left over after the
  match and then builds the date, which fails on a day the calendar does not have.
  A format is modelled as the list of its directives and literal characters; the
  groups are those of CPython's \<^verbatim>\<open>_strptime\<close>:
  \<^verbatim>\<open>%d = 3[0-1]|[1-2]\d|0[1-9]|[1-9]| [1-9]\<close>, \<^verbatim>\<open>%m = 1[0-2]|0[1-9]|[1-9]\<close>,
  \<^verbatim>\<open>%Y = \d\d\d\d\<close>.
\<close>

datatype directive = Day | Month | Year | Lit char

text \<open>One alternative of a group: the next \<open>n\<close> characters, when they satisfy \<open>p\<close>.\<close>

definition alt :: "nat \<Rightarrow> (string \<Rightarrow> bool) \<Rightarrow> string \<Rightarrow> string list" where
  "alt n p s = (if n \<le> length s \<and> p (take n s) then [take n s] else [])"

text \<open>
  The pieces at the start of \<open>s\<close> that a group can match, in the order in which the
  alternation tries them.
\<close>

fun candidates :: "directive \<Rightarrow> string \<Rightarrow> string list" where
  "candidates Day s =
     alt 2 (\<lambda>t. t ! 0 = CHR ''3'' \<and> t ! 1 \<in> set ''01'') s @
     alt 2 (\<lambda>t. t ! 0 \<in> set ''12'' \<and> is_digit (t ! 1)) s @
     alt 2 (\<lambda>t. t ! 0 = CHR ''0'' \<and> is_nonzero_digit (t ! 1)) s @
     alt 1 (\<lambda>t. is_nonzero_digit (t ! 0)) s @
     alt 2 (\<lambda>t. t ! 0 = CHR '' '' \<and> is_nonzero_digit (t ! 1)) s"
| "candidates Month s =
     alt 2 (\<lambda>t. t ! 0 = CHR ''1'' \<and> t ! 1 \<in> set ''012'') s @
     alt 2 (\<lambda>t. t ! 0 = CHR ''0'' \<and> is_nonzero_digit (t ! 1)) s @
     alt 1 (\<lambda>t. is_nonzero_digit (t ! 0)) s"
| "candidates Year s = alt 4 (list_all is_digit) s"
| "candidates (Lit c) s = alt 1 (\<lambda>t. t = [c]) s"

text \<open>The first element of a list of attempts that succeeded.\<close>

fun first_success :: "'a option list \<Rightarrow> 'a option" where
  "first_success [] = None"
| "first_success (None # xs) = first_success xs"
| "first_success (Some x # xs) = Some x"

text \<open>
  \<^verbatim>\<open>re.match\<close>: the first way, in backtracking order, of matching the groups one
  after the other from the start of the text. The result holds what each group
  matched and the text after the match.
\<close>

primrec re_match :: "directive list \<Rightarrow> string \<Rightarrow> ((directive \<times> string) list \<times> string) option" where
  "re_match [] s = Some ([], s)"
| "re_match (d # ds) s =
     first_success
       (map (\<lambda>p. map_option (\<lambda>(gs, rest). ((d, p) # gs, rest)) (re_match ds (drop (length p) s)))
            (candidates d s))"

definition is_leap :: "nat \<Rightarrow> bool" where
  "is_leap y = (y mod 4 = 0 \<and> (y mod 100 \<noteq> 0 \<or> y mod 400 = 0))"

definition days_in_month :: "nat \<Rightarrow> nat \<Rightarrow> nat" where
  "days_in_month y m =
     (if m = 2 then (if is_leap y then 29 else 28)
      else if m \<in> {4, 6, 9, 11} then 30 else 31)"

text \<open>The dates \<^verbatim>\<open>datetime.date(y, m, d)\<close> accepts.\<close>

definition valid_date :: "nat \<Rightarrow> nat \<Rightarrow> nat \<Rightarrow> bool" where
  "valid_date y m d =
     (1 \<le> y \<and> y \<le> 9999 \<and> 1 \<le> m \<and> m \<le> 12 \<and> 1 \<le> d \<and> d \<le> days_in_month y m)"

text \<open>\<^verbatim>\<open>int\<close> of what a group matched (the day group may start with a blank).\<close>

definition group_value :: "string \<Rightarrow> nat" where
  "group_value g = nat_of_digits (filter is_digit g)"

text \<open>
  \<^verbatim>\<open>datetime.strptime(s, fmt)\<close>; \<open>None\<close> when it raises. A field the format does
  not name takes the default of \<^verbatim>\<open>_strptime\<close>.
\<close>

definition strptime :: "string \<Rightarrow> directive list \<Rightarrow> (nat \<times> nat \<times> nat) option" where
  "strptime s fmt =
     (case re_match fmt s of
        None \<Rightarrow> None
      | Some (gs, rest) \<Rightarrow>
          if rest \<noteq> [] then None
          else
            let month = (case map_of gs Month of Some g \<Rightarrow> group_value g | None \<Rightarrow> 1);
                day = (case map_of gs Day of Some g \<Rightarrow> group_value g | None \<Rightarrow> 1);
                year = (case map_of gs Year of Some g \<Rightarrow> group_value g
                        | None \<Rightarrow> if month = 2 \<and> day = 29 then 1904 else 1900)
            in if valid_date year month day then Some (year, month, day) else None)"

text \<open>The formats \<^verbatim>\<open>"%d/%m/%Y"\<close> and \<^verbatim>\<open>"%m-%d-%Y"\<close>.\<close>

definition formats :: "directive list list" where
  "formats = [[Day, Lit (CHR ''/''), Month, Lit (CHR ''/''), Year],
              [Month, Lit (CHR ''-''), Day, Lit (CHR ''-''), Year]]"

text \<open>The loop of \<^verbatim>\<open>validate_date\<close>: the first format that parses decides.\<close>

fun try_formats :: "string \<Rightarrow> directive list list \<Rightarrow> bool" where
  "try_formats v [] = False"
| "try_formats v (fmt # fmts) =
     (case strptime v fmt of Some _ \<Rightarrow> True | None \<Rightarrow> try_formats v fmts)"

definition validate_date :: "string \<Rightarrow> bool" where
  "validate_date v = try_formats v formats"

subsection \<open>\<^verbatim>\<open>int\<close> and \<^verbatim>\<open>float\<close> of a cell\<close>

datatype py_error = ValueError | TypeError | OverflowError | ZeroDivisionError

text \<open>
  A floating-point number. \<open>Finite r\<close> is the finite double of value \<open>r\<close>; the source
  reads of a double only whether it is below zero and, under \<^verbatim>\<open>int\<close>, its integer
  part.
\<close>

datatype pyfloat = Finite rat | PosInf | NegInf | NaN

text \<open>
  What a cell of the \<^verbatim>\<open>quantity\<close> or \<^verbatim>\<open>price\<close> column holds: nothing, a text, an
  integer or a floating-point number (an empty cell of a file is read as \<open>NaN\<close>).
  A Boolean behaves under \<^verbatim>\<open>int\<close> and \<^verbatim>\<open>float\<close> as the integer 1 or 0.
\<close>

datatype cell = NoneVal | Text string | IntVal int | FloatVal pyfloat

text \<open>The characters \<^verbatim>\<open>int\<close> and \<^verbatim>\<open>float\<close> skip at both ends of a text.\<close>

definition is_num_space :: "char \<Rightarrow> bool" where
  "is_num_space c = (of_char c \<in> {9::nat, 10, 11, 12, 13, 32, 133, 160})"

definition strip_num :: "string \<Rightarrow> string" where
  "strip_num s = rev (dropWhile is_num_space (rev (dropWhile is_num_space s)))"

text \<open>
  Underscores in a numeric literal: each one stands between two digits. \<open>prev\<close> is the
  character before the rest.
\<close>

fun underscores_ok :: "char \<Rightarrow> string \<Rightarrow> bool" where
  "underscores_ok prev [] = (prev \<noteq> CHR ''_'')"
| "underscores_ok prev (c # cs) =
     ((if c = CHR ''_'' then is_digit prev else (prev = CHR ''_'' \<longrightarrow> is_digit c))
      \<and> underscores_ok c cs)"

text \<open>An optional sign at the start: whether it is a minus, and the rest.\<close>

definition take_sign :: "string \<Rightarrow> bool \<times> string" where
  "take_sign s =
     (case s of
        [] \<Rightarrow> (False, [])
      | c # cs \<Rightarrow> if c = CHR ''-'' then (True, cs) else if c = CHR ''+'' then (False, cs)
                  else (False, s))"

text \<open>The longest text of digits \<^verbatim>\<open>int\<close> converts (\<^verbatim>\<open>sys.get_int_max_str_digits()\<close>).\<close>

definition int_max_str_digits :: nat where
  "int_max_str_digits = 4300"

text \<open>
  \<^verbatim>\<open>int(s)\<close> for a text: blanks around, an optional sign, then decimal digits with
  single underscores between them.
\<close>

definition int_of_text :: "string \<Rightarrow> py_error + int" where
  "int_of_text s =
     (let (neg, body) = take_sign (strip_num s);
          ds = filter is_digit body
      in if body = [] \<or> \<not> list_all (\<lambda>c. is_digit c \<or> c = CHR ''_'') body
            \<or> \<not> underscores_ok (CHR 0x00) body
         then Inl ValueError
         else if int_max_str_digits < length ds then Inl ValueError
         else Inr (if neg then - int (nat_of_digits ds) else int (nat_of_digits ds)))"

text \<open>\<^verbatim>\<open>int(x)\<close> of a double: the integer part, towards zero.\<close>

definition truncate :: "rat \<Rightarrow> int" where
  "truncate r = (if 0 \<le> r then \<lfloor>r\<rfloor> else \<lceil>r\<rceil>)"

fun py_int :: "cell \<Rightarrow> py_error + int" where
  "py_int NoneVal = Inl TypeError"
| "py_int (Text s) = int_of_text s"
| "py_int (IntVal i) = Inr i"
| "py_int (FloatVal (Finite r)) = Inr (truncate r)"
| "py_int (FloatVal NaN) = Inl ValueError"
| "py_int (FloatVal _) = Inl OverflowError"

text \<open>
  The value of a decimal literal: digits, an optional fraction after a point (digits
  on at least one side of it), an optional exponent.
\<close>

definition scale10 :: "rat \<Rightarrow> int \<Rightarrow> rat" where
  "scale10 m k = (if 0 \<le> k then m * 10 ^ nat k else m / 10 ^ nat (- k))"

definition decimal_literal :: "string \<Rightarrow> rat option" where
  "decimal_literal body =
     (let ip = takeWhile is_digit body;
          r1 = dropWhile is_digit body;
          has_point = (r1 \<noteq> [] \<and> hd r1 = CHR ''.'');
          fp = (if has_point then takeWhile is_digit (tl r1) else []);
          r2 = (if has_point then dropWhile is_digit (tl r1) else r1);
          m = of_nat (nat_of_digits (ip @ fp))
      in if ip = [] \<and> fp = [] then None
         else if r2 = [] then Some (scale10 m (- int (length fp)))
         else if hd r2 \<in> set ''eE'' then
           (let (eneg, ed) = take_sign (tl r2)
            in if ed = [] \<or> \<not> list_all is_digit ed then None
               else Some (scale10 m ((if eneg then - int (nat_of_digits ed)
                                      else int (nat_of_digits ed)) - int (length fp))))
         else None)"

text \<open>
  The double nearest to a rational, as far as the source reads it. A value of at most
  \<^verbatim>\<open>2 ** -1075\<close> in magnitude rounds to zero, one from \<^verbatim>\<open>2 ** 1024 - 2 ** 970\<close> on to an
  infinity. In between, the nearest double has the sign of the rational; the model
  keeps the rational, as the source only compares the result with zero.
\<close>

definition nearest_double :: "rat \<Rightarrow> pyfloat" where
  "nearest_double v =
     (if \<bar>v\<bar> \<le> 1 / 2 ^ 1075 then Finite 0
      else if 2 ^ 1024 - 2 ^ 970 \<le> \<bar>v\<bar> then (if v < 0 then NegInf else PosInf)
      else Finite v)"

definition to_lower :: "char \<Rightarrow> char" where
  "to_lower c = (if 65 \<le> (of_char c :: nat) \<and> (of_char c :: nat) \<le> 90
                 then char_of (of_char c + (32::nat)) else c)"

text \<open>
  \<^verbatim>\<open>float(s)\<close> for a text: blanks around, underscores between digits, an optional
  sign, then \<^verbatim>\<open>inf\<close>, \<^verbatim>\<open>infinity\<close> or \<^verbatim>\<open>nan\<close> in any case, or a decimal literal.
\<close>

definition float_of_text :: "string \<Rightarrow> py_error + pyfloat" where
  "float_of_text s =
     (let t = strip_num s
      in if \<not> underscores_ok (CHR 0x00) t then Inl ValueError
         else
           let (neg, body) = take_sign (filter (\<lambda>c. c \<noteq> CHR ''_'') t);
               low = map to_lower body
           in if low = ''inf'' \<or> low = ''infinity'' then Inr (if neg then NegInf else PosInf)
              else if low = ''nan'' then Inr NaN
              else (case decimal_literal body of
                      None \<Rightarrow> Inl ValueError
                    | Some v \<Rightarrow> Inr (nearest_double (if neg then - v else v))))"

text \<open>\<^verbatim>\<open>float(x)\<close>; an integer beyond the doubles raises \<^verbatim>\<open>OverflowError\<close>.\<close>

fun py_float :: "cell \<Rightarrow> py_error + pyfloat" where
  "py_float NoneVal = Inl TypeError"
| "py_float (Text s) = float_of_text s"
| "py_float (IntVal i) =
     (if 2 ^ 1024 - 2 ^ 970 \<le> \<bar>i\<bar> then Inl OverflowError else Inr (Finite (of_int i)))"
| "py_float (FloatVal f) = Inr f"

text \<open>\<^verbatim>\<open>x < 0\<close> on a double; false for \<open>NaN\<close>.\<close>

fun float_negative :: "pyfloat \<Rightarrow> bool" where
  "float_negative (Finite r) = (r < 0)"
| "float_negative NegInf = True"
| "float_negative _ = False"

subsection \<open>Double-precision arithmetic\<close>

text \<open>
  The statistics are computed on doubles. A finite double is the rational it denotes,
  and an operation returns the double nearest to the exact result, ties going to the
  even significand (IEEE 754 binary64: 53 bits, exponents from -1022 to 1023,
  subnormal numbers below). The sign of a zero is not kept.
\<close>

text \<open>The number of binary digits of a natural number.\<close>

fun bitlen :: "nat \<Rightarrow> nat" where
  "bitlen n = (if n = 0 then 0 else Suc (bitlen (n div 2)))"

text \<open>For a positive \<open>x\<close>, the exponent \<open>e\<close> with \<open>2 ^ e \<le> x < 2 ^ (e + 1)\<close>.\<close>

definition floor_log2 :: "rat \<Rightarrow> int" where
  "floor_log2 x =
     (let (p, q) = quotient_of x;
          d = int (bitlen (nat p)) - int (bitlen (nat q))
      in if 2 powi d \<le> x then d else d - 1)"

text \<open>The nearest integer, a tie going to the even one.\<close>

definition round_half_even :: "rat \<Rightarrow> int" where
  "round_half_even y =
     (let f = \<lfloor>y\<rfloor>; d = y - of_int f
      in if d < 1 / 2 then f else if 1 / 2 < d then f + 1 else if even f then f else f + 1)"

text \<open>
  The double nearest to a rational: the significand is the rational divided by the
  spacing of the doubles around it, rounded; a result of \<open>2 ^ 1024\<close> or more is an
  infinity.
\<close>

definition round_double :: "rat \<Rightarrow> pyfloat" where
  "round_double x =
     (if x = 0 then Finite 0
      else
        let a = \<bar>x\<bar>;
            e = max (floor_log2 a) (- 1022);
            n = round_half_even (a / 2 powi (e - 52))
        in if 1023 < e \<or> (e = 1023 \<and> n = 2 ^ 53) then (if x < 0 then NegInf else PosInf)
           else Finite (sgn x * of_int n * 2 powi (e - 52)))"

text \<open>An integer count as a double.\<close>

definition int_to_double :: "nat \<Rightarrow> pyfloat" where
  "int_to_double n = round_double (of_nat n)"

text \<open>\<^verbatim>\<open>a * b\<close> on doubles.\<close>

fun float_mul :: "pyfloat \<Rightarrow> pyfloat \<Rightarrow> pyfloat" where
  "float_mul (Finite x) (Finite y) = round_double (x * y)"
| "float_mul NaN b = NaN"
| "float_mul a NaN = NaN"
| "float_mul (Finite x) b =
     (if x = 0 then NaN else if (x < 0) = (b = NegInf) then PosInf else NegInf)"
| "float_mul a (Finite y) =
     (if y = 0 then NaN else if (y < 0) = (a = NegInf) then PosInf else NegInf)"
| "float_mul a b = (if a = b then PosInf else NegInf)"

text \<open>
  \<^verbatim>\<open>a / b\<close> on doubles. A division by zero is taken to raise, as it does on Python's
  own numbers (NumPy's give a warning and an infinity or \<open>NaN\<close>).
\<close>

fun true_div :: "pyfloat \<Rightarrow> pyfloat \<Rightarrow> py_error + pyfloat" where
  "true_div a (Finite y) =
     (if y = 0 then Inl ZeroDivisionError
      else case a of
             Finite x \<Rightarrow> Inr (round_double (x / y))
           | NaN \<Rightarrow> Inr NaN
           | _ \<Rightarrow> Inr (if (y < 0) = (a = NegInf) then PosInf else NegInf))"
| "true_div NaN b = Inr NaN"
| "true_div a NaN = Inr NaN"
| "true_div (Finite x) b = Inr (Finite 0)"
| "true_div a b = Inr NaN"

subsection \<open>The row validator\<close>

text \<open>
  One row of the table. Of the \<^verbatim>\<open>order_id\<close> cell the source reads whether
  \<^verbatim>\<open>pd.isna\<close> holds and, if not, the value as a member of a set: the field is \<open>None\<close>
  for a cell that \<^verbatim>\<open>pd.isna\<close> accepts (an empty cell of the file, read as \<open>NaN\<close>) and
  \<open>Some k\<close> otherwise, with \<open>k\<close> the value up to Python's equality. Of the \<^verbatim>\<open>item\<close>
  and \<^verbatim>\<open>date\<close> cells it reads \<^verbatim>\<open>pd.isna\<close> and, if that fails, \<^verbatim>\<open>str\<close> of the value:
  these fields are \<open>None\<close> or \<open>Some\<close> of that text.
\<close>

record 'k order_row =
  order_id :: "'k option"
  item :: "string option"
  date :: "string option"
  quantity :: cell
  price :: cell

text \<open>
  The list \<^verbatim>\<open>errors\<close> at the end of \<^verbatim>\<open>validate_row\<close>, with the set of identifiers
  seen as the call leaves it.
\<close>

definition collect_errors :: "'k order_row \<Rightarrow> 'k set \<Rightarrow> string list \<times> 'k set" where
  "collect_errors row seen_ids =
     (let (errors, seen_ids) =
            (case order_id row of
               None \<Rightarrow> ([''Missing order_id''], seen_ids)
             | Some k \<Rightarrow>
                 ((if k \<in> seen_ids then [''Duplicate order_id''] else []), insert k seen_ids));
          errors =
            (if (case item row of None \<Rightarrow> True | Some s \<Rightarrow> str_strip s = [])
             then errors @ [''Missing item''] else errors);
          errors =
            (if (case date row of None \<Rightarrow> True | Some s \<Rightarrow> \<not> validate_date s)
             then errors @ [''Invalid date (dd/mm/yyyy or mm-dd-yyyy)''] else errors);
          errors =
            (case py_int (quantity row) of
               Inr qty \<Rightarrow> if qty < 0 then errors @ [''Negative quantity''] else errors
             | Inl _ \<Rightarrow> errors @ [''Invalid quantity'']);
          errors =
            (case py_float (price row) of
               Inr p \<Rightarrow> if float_negative p then errors @ [''Negative price''] else errors
             | Inl _ \<Rightarrow> errors @ [''Invalid price''])
      in (errors, seen_ids))"

text \<open>\<^verbatim>\<open>validate_row\<close>: the status and the message, and the updated set.\<close>

definition validate_row :: "'k order_row \<Rightarrow> 'k set \<Rightarrow> (string \<times> string) \<times> 'k set" where
  "validate_row row seen_ids =
     (let (errors, seen_ids) = collect_errors row seen_ids
      in (if errors \<noteq> [] then (''Invalid'', str_join ''; '' errors)
          else (''Valid'', ''No errors''), seen_ids))"

subsection \<open>The validation loop and the statistics\<close>

text \<open>The loop over the rows: one status and one message per row, in order.\<close>

fun validation_loop :: "'k set \<Rightarrow> 'k order_row list \<Rightarrow> (string \<times> string) list" where
  "validation_loop seen_ids [] = []"
| "validation_loop seen_ids (row # rows) =
     (let (verdict, seen_ids) = validate_row row seen_ids
      in verdict # validation_loop seen_ids rows)"

text \<open>A row of the table with its two new columns.\<close>

record 'k checked_row =
  source_row :: "'k order_row"
  status :: string
  error_message :: string

definition validate_table :: "'k order_row list \<Rightarrow> 'k checked_row list" where
  "validate_table df =
     map (\<lambda>(row, st, msg). \<lparr>source_row = row, status = st, error_message = msg\<rparr>)
         (zip df (validation_loop {} df))"

definition total_rows :: "'k checked_row list \<Rightarrow> nat" where
  "total_rows df = length df"

definition valid_count :: "'k checked_row list \<Rightarrow> nat" where
  "valid_count df = length (filter (\<lambda>r. status r = ''Valid'') df)"

definition invalid_count :: "'k checked_row list \<Rightarrow> nat" where
  "invalid_count df = length (filter (\<lambda>r. status r = ''Invalid'') df)"

text \<open>
  \<^verbatim>\<open>(valid / total * 100) if total > 0 else 0\<close>, on the two counts: the quotient of
  the counts as doubles, rounded, then the product with 100, rounded. The integer 0
  of the other branch is given as the double of the same value.
\<close>

definition rate_of_counts :: "nat \<Rightarrow> nat \<Rightarrow> py_error + pyfloat" where
  "rate_of_counts valid tot =
     (if 0 < tot
      then (case true_div (int_to_double valid) (int_to_double tot) of
              Inl e \<Rightarrow> Inl e
            | Inr q \<Rightarrow> Inr (float_mul q (int_to_double 100)))
      else Inr (Finite 0))"

definition validation_rate :: "'k checked_row list \<Rightarrow> py_error + pyfloat" where
  "validation_rate df = rate_of_counts (valid_count df) (total_rows df)"

subsection \<open>Error aggregation and the error filter\<close>

definition invalid_df :: "'k checked_row list \<Rightarrow> 'k checked_row list" where
  "invalid_df df = filter (\<lambda>r. status r = ''Invalid'') df"

text \<open>The reasons of all invalid rows, each message cut at \<^verbatim>\<open>"; "\<close>.\<close>

definition error_list :: "'k checked_row list \<Rightarrow> string list" where
  "error_list df = concat (map (\<lambda>r. str_split (error_message r) ''; '') (invalid_df df))"

text \<open>\<^verbatim>\<open>Counter(xs)\<close>: how often each element occurs.\<close>

definition counter_add :: "(string \<rightharpoonup> nat) \<Rightarrow> string \<Rightarrow> (string \<rightharpoonup> nat)" where
  "counter_add m k = m(k \<mapsto> (case m k of None \<Rightarrow> 1 | Some n \<Rightarrow> Suc n))"

definition counter :: "string list \<Rightarrow> (string \<rightharpoonup> nat)" where
  "counter xs = foldl counter_add Map.empty xs"

text \<open>The error counts of the dashboard; none are built when there is no error.\<close>

definition error_counts :: "'k checked_row list \<Rightarrow> (string \<rightharpoonup> nat) option" where
  "error_counts df = (if error_list df \<noteq> [] then Some (counter (error_list df)) else None)"

text \<open>
  The filter of the error page: with a selection, the invalid rows whose message
  contains one of the selected texts; without, all invalid rows.
\<close>

definition filter_errors :: "string list \<Rightarrow> 'k checked_row list \<Rightarrow> 'k checked_row list" where
  "filter_errors selected_errors idf =
     (if selected_errors \<noteq> []
      then filter (\<lambda>r. list_ex (\<lambda>err. str_contains err (error_message r)) selected_errors) idf
      else idf)"

subsection \<open>The set of identifiers during the loop\<close>

text \<open>The set \<^verbatim>\<open>seen_ids\<close> after the loop has gone through \<open>rows\<close>, starting from \<open>seen_ids\<close>.\<close>

definition seen_after :: "'k set \<Rightarrow> 'k order_row list \<Rightarrow> 'k set" where
  "seen_after seen_ids rows = foldl (\<lambda>s row. snd (validate_row row s)) seen_ids rows"

text \<open>
  The reasons of a checked row, as the aggregation and the filter recover them: the
  message of an invalid row cut at \<^verbatim>\<open>"; "\<close>; a valid row has none.
\<close>

definition reasons :: "'k checked_row \<Rightarrow> string list" where
  "reasons r = (if status r = ''Invalid'' then str_split (error_message r) ''; '' else [])"

text \<open>The reason texts \<^verbatim>\<open>validate_row\<close> can append, in the order of its checks.\<close>

definition reason_texts :: "string list" where
  "reason_texts =
     [''Missing order_id'', ''Duplicate order_id'', ''Missing item'',
      ''Invalid date (dd/mm/yyyy or mm-dd-yyyy)'',
      ''Negative quantity'', ''Invalid quantity'', ''Negative price'', ''Invalid price'']"

subsection \<open>The reasons of each check\<close>

text \<open>
  What each of the five checks of \<^verbatim>\<open>validate_row\<close> appends to \<^verbatim>\<open>errors\<close>, taken
  apart; \<open>collect_errors_fst\<close> below shows that the list is their concatenation.
\<close>

definition id_errors :: "'k order_row \<Rightarrow> 'k set \<Rightarrow> string list" where
  "id_errors row seen =
     (case order_id row of
        None \<Rightarrow> [''Missing order_id'']
      | Some k \<Rightarrow> if k \<in> seen then [''Duplicate order_id''] else [])"

definition item_errors :: "'k order_row \<Rightarrow> string list" where
  "item_errors row =
     (if (case item row of None \<Rightarrow> True | Some s \<Rightarrow> str_strip s = [])
      then [''Missing item''] else [])"

definition date_errors :: "'k order_row \<Rightarrow> string list" where
  "date_errors row =
     (if (case date row of None \<Rightarrow> True | Some s \<Rightarrow> \<not> validate_date s)
      then [''Invalid date (dd/mm/yyyy or mm-dd-yyyy)''] else [])"

definition quantity_errors :: "'k order_row \<Rightarrow> string list" where
  "quantity_errors row =
     (case py_int (quantity row) of
        Inr qty \<Rightarrow> if qty < 0 then [''Negative quantity''] else []
      | Inl _ \<Rightarrow> [''Invalid quantity''])"

definition price_errors :: "'k order_row \<Rightarrow> string list" where
  "price_errors row =
     (case py_float (price row) of
        Inr p \<Rightarrow> if float_negative p then [''Negative price''] else []
      | Inl _ \<Rightarrow> [''Invalid price''])"

subsection \<open>The two date patterns as texts\<close>

text \<open>A text that one group of the regular expression matches as a whole.\<close>

definition group_matches :: "directive \<Rightarrow> string \<Rightarrow> bool" where
  "group_matches d p = (p \<in> set (candidates d p))"

text \<open>
  The patterns in the words of the specification: a day is one or two digits that
  denote a number from 1 to 31 (or a blank and one digit from 1 to 9, which
  \<^verbatim>\<open>strptime\<close> accepts as well), a month one or two digits that denote a number from
  1 to 12, a year four digits.
\<close>

definition day_text :: "string \<Rightarrow> bool" where
  "day_text d =
     ((length d \<in> {1, 2} \<and> list_all is_digit d \<and> 1 \<le> nat_of_digits d \<and> nat_of_digits d \<le> 31) \<or>
      (length d = 2 \<and> d ! 0 = CHR '' '' \<and> is_nonzero_digit (d ! 1)))"

definition month_text :: "string \<Rightarrow> bool" where
  "month_text m =
     (length m \<in> {1, 2} \<and> list_all is_digit m \<and> 1 \<le> nat_of_digits m \<and> nat_of_digits m \<le> 12)"

definition year_text :: "string \<Rightarrow> bool" where
  "year_text y = (length y = 4 \<and> list_all is_digit y)"

text \<open>
  Day/month/year with \<^verbatim>\<open>/\<close> between the fields, and month-day-year with \<^verbatim>\<open>-\<close>: the
  whole text is the three fields and the two separators, and the date exists in the
  calendar.
\<close>

definition dmy_text :: "string \<Rightarrow> bool" where
  "dmy_text s = (\<exists>d m y. s = d @ ''/'' @ m @ ''/'' @ y \<and> day_text d \<and> month_text m \<and> year_text y \<and>
      valid_date (nat_of_digits y) (nat_of_digits m) (group_value d))"

definition mdy_text :: "string \<Rightarrow> bool" where
  "mdy_text s = (\<exists>m d y. s = m @ ''-'' @ d @ ''-'' @ y \<and> month_text m \<and> day_text d \<and> year_text y \<and>
      valid_date (nat_of_digits y) (nat_of_digits m) (group_value d))"

subsection \<open>Example rows\<close>

definition sound_row :: "string \<Rightarrow> string order_row" where
  "sound_row k =
     \<lparr>order_id = Some k, item = Some ''pen'', date = Some ''31/12/2024'',
      quantity = IntVal 3, price = FloatVal (Finite (5 / 2))\<rparr>"

definition broken_row :: "string order_row" where
  "broken_row =
     \<lparr>order_id = None, item = Some ''  '', date = Some ''2024/12/31'',
      quantity = Text ''abc'', price = Text ''free''\<rparr>"

section \<open>Strings: cutting what was joined, and containment\<close>

lemma str_contains_sublist: "str_contains needle hay \<longleftrightarrow> sublist needle hay"
  by (induction hay) (auto simp: sublist_Cons_right)

lemma split_from_piece:
  "c \<notin> set x \<Longrightarrow> split_from (c # sep) acc (x @ rest) = split_from (c # sep) (rev x @ acc) rest"
  by (induction x arbitrary: acc) auto

lemma split_join:
  "xs \<noteq> [] \<Longrightarrow> \<forall>x \<in> set xs. c \<notin> set x \<Longrightarrow>
   split_from (c # sep) [] (str_join (c # sep) xs) = xs"
proof (induction "c # sep" xs rule: str_join.induct)
  case 1
  then show ?case by simp
next
  case (2 x)
  then show ?case using split_from_piece [of c x sep "[]" "[]"] by simp
next
  case (3 x y ys)
  have "split_from (c # sep) [] (x @ (c # sep) @ str_join (c # sep) (y # ys)) =
        split_from (c # sep) (rev x) ((c # sep) @ str_join (c # sep) (y # ys))"
    using 3 split_from_piece [of c x sep "[]"] by simp
  also have "\<dots> = x # split_from (c # sep) [] (str_join (c # sep) (y # ys))"
    by simp
  also have "\<dots> = x # y # ys" using 3 by simp
  finally show ?case by simp
qed

lemma sublist_join: "x \<in> set xs \<Longrightarrow> sublist x (str_join sep xs)"
proof (induction sep xs rule: str_join.induct)
  case (3 sep a b bs)
  show ?case
  proof (cases "x = a")
    case True
    then show ?thesis by simp
  next
    case False
    with 3 have "sublist x (str_join sep (b # bs))" by simp
    then show ?thesis
      by (metis append_assoc str_join.simps(3) sublist_append)
  qed
qed simp_all

lemma prefix_avoiding: "prefix e (c # b) \<Longrightarrow> c \<notin> set e \<Longrightarrow> e = []"
  by (cases e) (auto simp: prefix_Cons)

lemma sublist_across:
  assumes "sublist e (a @ c # b)" and "c \<notin> set e"
  shows "sublist e a \<or> sublist e b"
proof -
  from assms(1) consider "sublist e a" | "sublist e (c # b)"
    | e1 e2 where "e = e1 @ e2" "suffix e1 a" "prefix e2 (c # b)"
    by (auto simp: sublist_append)
  then show ?thesis
  proof cases
    case 1
    then show ?thesis by simp
  next
    case 2
    then show ?thesis
      using assms(2) prefix_avoiding [of e c b] by (auto simp: sublist_Cons_right)
  next
    case 3
    from 3(1) assms(2) have "c \<notin> set e2" by simp
    with 3(3) have "e2 = []" by (rule prefix_avoiding)
    with 3 show ?thesis by (auto intro: suffix_imp_sublist)
  qed
qed

lemma sublist_join_piece:
  assumes "sublist e (str_join [c, d] xs)" and "c \<notin> set e" and "e \<noteq> []" and "hd e \<noteq> d"
  shows "\<exists>x \<in> set xs. sublist e x"
  using assms
proof (induction "[c, d]" xs rule: str_join.induct)
  case 1
  then show ?case by simp
next
  case (2 x)
  then show ?case by simp
next
  case (3 x y ys)
  from 3(2) have "sublist e (x @ c # d # str_join [c, d] (y # ys))" by simp
  from sublist_across [OF this 3(3)]
  have "sublist e x \<or> sublist e (d # str_join [c, d] (y # ys))" .
  then show ?case
  proof
    assume "sublist e x" then show ?thesis by auto
  next
    assume "sublist e (d # str_join [c, d] (y # ys))"
    with 3(4,5) have "sublist e (str_join [c, d] (y # ys))"
      by (cases e) (auto simp: sublist_Cons_right prefix_Cons)
    with 3 show ?thesis by auto
  qed
qed

lemma reason_texts_apart:
  "\<forall>e \<in> set reason_texts. \<forall>x \<in> set reason_texts. str_contains e x \<longrightarrow> e = x"
  by code_simp

lemma reason_texts_shape:
  "\<forall>e \<in> set reason_texts. CHR '';'' \<notin> set e \<and> e \<noteq> [] \<and> hd e \<noteq> CHR '' ''"
  by code_simp

section \<open>Properties of the validation loop\<close>

lemma length_validation_loop: "length (validation_loop seen rows) = length rows"
  by (induction rows arbitrary: seen) (auto split: prod.splits)

lemma length_validate_table: "length (validate_table df) = length df"
  by (simp add: validate_table_def length_validation_loop)

lemma snd_validate_row:
  "snd (validate_row row seen) = (case order_id row of None \<Rightarrow> seen | Some k \<Rightarrow> insert k seen)"
  by (simp add: validate_row_def collect_errors_def Let_def split: prod.splits option.splits)

lemma seen_after_Nil: "seen_after seen [] = seen"
  by (simp add: seen_after_def)

lemma seen_after_Cons:
  "seen_after seen (row # rows) = seen_after (snd (validate_row row seen)) rows"
  by (simp add: seen_after_def)

lemma seen_after_eq: "seen_after seen rows = seen \<union> {k. \<exists>r \<in> set rows. order_id r = Some k}"
proof (induction rows arbitrary: seen)
  case Nil
  then show ?case by (simp add: seen_after_Nil)
next
  case (Cons row rows)
  show ?case
    by (cases "order_id row") (auto simp: seen_after_Cons Cons.IH snd_validate_row)
qed

lemma validation_loop_nth:
  "i < length rows \<Longrightarrow>
   validation_loop seen rows ! i = fst (validate_row (rows ! i) (seen_after seen (take i rows)))"
proof (induction rows arbitrary: seen i)
  case Nil
  then show ?case by simp
next
  case (Cons row rows)
  show ?case
  proof (cases i)
    case 0
    then show ?thesis by (simp add: seen_after_Nil split: prod.splits)
  next
    case (Suc j)
    with Cons.prems have "j < length rows" by simp
    from Cons.IH [OF this] Suc show ?thesis
      by (simp add: seen_after_Cons split: prod.splits)
  qed
qed

lemma validate_table_nth:
  assumes "i < length df"
  shows "validate_table df ! i =
    \<lparr>source_row = df ! i,
     status = fst (fst (validate_row (df ! i) (seen_after {} (take i df)))),
     error_message = snd (fst (validate_row (df ! i) (seen_after {} (take i df))))\<rparr>"
  using assms
  by (simp add: validate_table_def length_validation_loop validation_loop_nth split: prod.splits)

section \<open>The row validator\<close>

lemma collect_shape:
  "(let (errors, seen) = A;
        errors = (if b2 then errors @ e2 else errors);
        errors = (if b3 then errors @ e3 else errors);
        errors = (case q of Inr v \<Rightarrow> if gq v then errors @ e4 else errors | Inl _ \<Rightarrow> errors @ e4');
        errors = (case p of Inr v \<Rightarrow> if gp v then errors @ e5 else errors | Inl _ \<Rightarrow> errors @ e5')
    in (errors, seen)) =
   (fst A @ (if b2 then e2 else []) @ (if b3 then e3 else []) @
    (case q of Inr v \<Rightarrow> if gq v then e4 else [] | Inl _ \<Rightarrow> e4') @
    (case p of Inr v \<Rightarrow> if gp v then e5 else [] | Inl _ \<Rightarrow> e5'), snd A)"
  by (cases A; cases q; cases p) (simp_all add: Let_def)

lemma collect_errors_fst:
  "fst (collect_errors row seen) =
     id_errors row seen @ item_errors row @ date_errors row @ quantity_errors row @ price_errors row"
proof -
  have "fst (case order_id row of
               None \<Rightarrow> ([''Missing order_id''], seen)
             | Some k \<Rightarrow>
                 ((if k \<in> seen then [''Duplicate order_id''] else []), insert k seen)) =
        id_errors row seen"
    unfolding id_errors_def by (cases "order_id row") (simp_all only: option.case fst_conv)
  then show ?thesis
    unfolding collect_errors_def collect_shape item_errors_def date_errors_def
      quantity_errors_def price_errors_def
    by (simp only: fst_conv)
qed

lemma collect_errors_snd:
  "snd (collect_errors row seen) = (case order_id row of None \<Rightarrow> seen | Some k \<Rightarrow> insert k seen)"
  unfolding collect_errors_def collect_shape
  by (cases "order_id row") (simp_all only: option.case snd_conv)




lemma in_id_errors:
  "e \<in> set (id_errors row seen) \<longleftrightarrow>
     (e = ''Missing order_id'' \<and> order_id row = None) \<or>
     (e = ''Duplicate order_id'' \<and> (\<exists>k. order_id row = Some k \<and> k \<in> seen))"
  unfolding id_errors_def by (cases "order_id row") auto

lemma in_item_errors:
  "e \<in> set (item_errors row) \<longleftrightarrow>
     e = ''Missing item'' \<and> (case item row of None \<Rightarrow> True | Some s \<Rightarrow> str_strip s = [])"
  unfolding item_errors_def by auto

lemma in_date_errors:
  "e \<in> set (date_errors row) \<longleftrightarrow>
     e = ''Invalid date (dd/mm/yyyy or mm-dd-yyyy)'' \<and>
     (case date row of None \<Rightarrow> True | Some s \<Rightarrow> \<not> validate_date s)"
  unfolding date_errors_def by auto

lemma in_quantity_errors:
  "e \<in> set (quantity_errors row) \<longleftrightarrow>
     (e = ''Invalid quantity'' \<and> (\<exists>err. py_int (quantity row) = Inl err)) \<or>
     (e = ''Negative quantity'' \<and> (\<exists>q. py_int (quantity row) = Inr q \<and> q < 0))"
  unfolding quantity_errors_def by (cases "py_int (quantity row)") auto

lemma in_price_errors:
  "e \<in> set (price_errors row) \<longleftrightarrow>
     (e = ''Invalid price'' \<and> (\<exists>err. py_float (price row) = Inl err)) \<or>
     (e = ''Negative price'' \<and> (\<exists>p. py_float (price row) = Inr p \<and> float_negative p))"
  unfolding price_errors_def by (cases "py_float (price row)") auto


lemma fst_validate_row:
  "fst (validate_row row seen) =
     (if fst (collect_errors row seen) \<noteq> []
      then (''Invalid'', str_join ''; '' (fst (collect_errors row seen)))
      else (''Valid'', ''No errors''))"
  by (simp add: validate_row_def split: prod.splits)




lemma id_errors_texts: "set (id_errors row seen) \<subseteq> set reason_texts"
  by (rule subsetI) (auto simp: in_id_errors reason_texts_def)

lemma item_errors_texts: "set (item_errors row) \<subseteq> set reason_texts"
  by (rule subsetI) (simp add: in_item_errors reason_texts_def)

lemma date_errors_texts: "set (date_errors row) \<subseteq> set reason_texts"
  by (rule subsetI) (simp add: in_date_errors reason_texts_def)

lemma quantity_errors_texts: "set (quantity_errors row) \<subseteq> set reason_texts"
  by (rule subsetI) (auto simp: in_quantity_errors reason_texts_def)

lemma price_errors_texts: "set (price_errors row) \<subseteq> set reason_texts"
  by (rule subsetI) (auto simp: in_price_errors reason_texts_def)

lemma collect_errors_texts: "set (fst (collect_errors row seen)) \<subseteq> set reason_texts"
  unfolding collect_errors_fst set_append
  by (intro Un_least id_errors_texts item_errors_texts date_errors_texts
      quantity_errors_texts price_errors_texts)

lemma no_semicolon: "e \<in> set (fst (collect_errors row seen)) \<Longrightarrow> CHR '';'' \<notin> set e"
  using collect_errors_texts [of row seen] reason_texts_shape by blast



lemmas in_errors = collect_errors_fst set_append Un_iff in_id_errors in_item_errors in_date_errors
  in_quantity_errors in_price_errors

lemma reasons_validate_row:
  "reasons \<lparr>source_row = r, status = fst (fst (validate_row row seen)),
            error_message = snd (fst (validate_row row seen))\<rparr> = fst (collect_errors row seen)"
proof (cases "fst (collect_errors row seen) = []")
  case True
  then show ?thesis by (simp add: reasons_def fst_validate_row)
next
  case False
  have "split_from ''; '' [] (str_join ''; '' (fst (collect_errors row seen))) =
        fst (collect_errors row seen)"
    using False no_semicolon by (intro split_join) auto
  with False show ?thesis by (simp add: reasons_def fst_validate_row str_split_def)
qed

lemma reasons_validate_table:
  "i < length df \<Longrightarrow>
   reasons (validate_table df ! i) = fst (collect_errors (df ! i) (seen_after {} (take i df)))"
  by (simp add: validate_table_nth reasons_validate_row)

lemma seen_before:
  assumes "i \<le> length df"
  shows "k \<in> seen_after {} (take i df) \<longleftrightarrow> (\<exists>j < i. order_id (df ! j) = Some k)"
proof
  assume "k \<in> seen_after {} (take i df)"
  then obtain r where r: "r \<in> set (take i df)" "order_id r = Some k"
    by (auto simp: seen_after_eq)
  from r(1) obtain j where "j < length (take i df)" "take i df ! j = r"
    by (auto simp: in_set_conv_nth)
  with r(2) assms show "\<exists>j < i. order_id (df ! j) = Some k"
    by (intro exI [of _ j]) simp
next
  assume "\<exists>j < i. order_id (df ! j) = Some k"
  then obtain j where j: "j < i" "order_id (df ! j) = Some k" by blast
  with assms have "take i df ! j \<in> set (take i df)" by (intro nth_mem) simp
  with j show "k \<in> seen_after {} (take i df)"
    by (auto simp: seen_after_eq)
qed

lemma duplicate_in_errors:
  "''Duplicate order_id'' \<in> set (fst (collect_errors row seen)) \<longleftrightarrow>
     (\<exists>k. order_id row = Some k \<and> k \<in> seen)"
  by (simp add: in_errors)

lemma missing_id_in_errors:
  "''Missing order_id'' \<in> set (fst (collect_errors row seen)) \<longleftrightarrow> order_id row = None"
  by (simp add: in_errors)

text \<open>
  Claim C7. Table validation yields one checked row per input row: the result is as
  long as the input, and its \<open>i\<close>-th entry holds the \<open>i\<close>-th input row together with
  the status and message \<^verbatim>\<open>validate_row\<close> gives for that row, called with the
  identifiers of the rows before it.
\<close>

theorem one_verdict_per_record:
  "length (validate_table df) = length df \<and>
   (\<forall>i < length df.
      source_row (validate_table df ! i) = df ! i \<and>
      (status (validate_table df ! i), error_message (validate_table df ! i)) =
        fst (validate_row (df ! i) (seen_after {} (take i df))))"
  by (simp add: length_validate_table validate_table_nth)

theorem one_verdict_per_record_witness:
  "length (validate_table [sound_row ''A'', sound_row ''A'', broken_row]) = 3 \<and>
   source_row (validate_table [sound_row ''A'', sound_row ''A'', broken_row] ! 1) = sound_row ''A'' \<and>
   (status (validate_table [sound_row ''A'', sound_row ''A'', broken_row] ! 1),
    error_message (validate_table [sound_row ''A'', sound_row ''A'', broken_row] ! 1)) =
     (''Invalid'', ''Duplicate order_id'')"
proof -
  have e: "fst (validate_row (sound_row ''A'') (seen_after {} [sound_row ''A''])) =
           (''Invalid'', ''Duplicate order_id'')"
    by code_simp
  show ?thesis
    using one_verdict_per_record [of "[sound_row ''A'', sound_row ''A'', broken_row]"] e
    by (simp add: numeral_3_eq_3)
qed

section \<open>Double-precision arithmetic\<close>

lemma bitlen_0: "bitlen 0 = 0"
  by simp

lemma bitlen_pos: "0 < n \<Longrightarrow> bitlen n = Suc (bitlen (n div 2))"
  by simp

lemma bitlen_bounds: "0 < n \<Longrightarrow> 2 ^ (bitlen n - 1) \<le> n \<and> n < 2 ^ bitlen n"
proof (induction n rule: bitlen.induct)
  case (1 n)
  show ?case
  proof (cases "n div 2 = 0")
    case True
    with 1(2) have "n = 1" by (simp add: div_eq_0_iff)
    then show ?thesis by (simp add: bitlen_pos bitlen_0)
  next
    case False
    with 1 have ih: "2 ^ (bitlen (n div 2) - 1) \<le> n div 2" "n div 2 < 2 ^ bitlen (n div 2)"
      by simp_all
    from False have b: "0 < bitlen (n div 2)" by (simp add: bitlen_pos)
    then obtain k where k: "bitlen (n div 2) = Suc k" by (cases "bitlen (n div 2)") simp_all
    from ih k have "2 ^ Suc k \<le> 2 * (n div 2)" "2 * (n div 2) + 2 \<le> 2 ^ Suc (Suc k)"
      by simp_all
    moreover have "2 * (n div 2) \<le> n" "n < 2 * (n div 2) + 2" by arith+
    ultimately have "2 ^ Suc k \<le> n" "n < 2 ^ Suc (Suc k)" by linarith+
    with 1(2) k show ?thesis by (simp only: bitlen_pos diff_Suc_1)
  qed
qed

lemma two_powi_pos: "0 < (2::rat) powi k"
  by simp

lemma two_powi_less: "(2::rat) powi a < 2 powi b \<Longrightarrow> a < b"
  by (rule ccontr) (use power_int_increasing [of b a "2::rat"] in simp)

lemma two_powi_Suc: "(2::rat) powi (k + 1) = 2 * 2 powi k"
  by (simp add: power_int_add)

lemma floor_log2_bounds:
  assumes "0 < x"
  shows "2 powi (floor_log2 x) \<le> x \<and> x < 2 powi (floor_log2 x + 1)"
proof -
  obtain p q where pq: "quotient_of x = (p, q)" by (cases "quotient_of x")
  then have q: "0 < q" and x: "x = of_int p / of_int q"
    by (simp_all add: quotient_of_denom_pos quotient_of_div)
  with assms have p: "0 < p" by (simp add: zero_less_divide_iff)
  define P Q where "P = nat p" and "Q = nat q"
  with p q have PQ: "0 < P" "0 < Q" "p = int P" "q = int Q" by simp_all
  define a b where "a = bitlen P" and "b = bitlen Q"
  from bitlen_bounds [OF PQ(1)] bitlen_bounds [OF PQ(2)]
  have bp: "2 ^ (a - 1) \<le> P" "P < 2 ^ a" and bq: "2 ^ (b - 1) \<le> Q" "Q < 2 ^ b"
    by (simp_all add: a_def b_def)
  from PQ have a1: "0 < a" and b1: "0 < b" by (simp_all add: a_def b_def bitlen_pos)
  define d where "d = int a - int b"
  have xr: "x = of_nat P / of_nat Q" using x PQ by simp
  have rp: "(2::rat) ^ (a - 1) \<le> of_nat P" "(of_nat P :: rat) < 2 ^ a"
    using bp by (metis of_nat_le_iff of_nat_numeral of_nat_power, metis of_nat_less_iff of_nat_numeral of_nat_power)
  have rq: "(2::rat) ^ (b - 1) \<le> of_nat Q" "(of_nat Q :: rat) < 2 ^ b"
    using bq by (metis of_nat_le_iff of_nat_numeral of_nat_power, metis of_nat_less_iff of_nat_numeral of_nat_power)
  have Qpos: "(0::rat) < of_nat Q" using PQ by simp
  have up: "x < 2 powi (d + 1)"
  proof -
    have "x * 2 ^ (b - 1) \<le> x * of_nat Q" using rq(1) assms by (intro mult_left_mono) simp_all
    also have "\<dots> = of_nat P" using xr Qpos by simp
    also have "\<dots> < 2 ^ a" by (rule rp(2))
    finally have "x < 2 ^ a / 2 ^ (b - 1)" by (simp add: pos_less_divide_eq)
    also have "\<dots> = 2 powi (int a - int (b - 1))" by (simp add: power_int_diff)
    also have "int a - int (b - 1) = d + 1" using b1 by (simp add: d_def)
    finally show ?thesis .
  qed
  have low: "2 powi (d - 1) \<le> x"
  proof -
    have "2 powi (d - 1) = (2::rat) ^ (a - 1) / 2 ^ b"
    proof -
      have "d - 1 = int (a - 1) - int b" using a1 by (simp add: d_def)
      then show ?thesis by (simp add: power_int_diff)
    qed
    also have "\<dots> \<le> of_nat P / 2 ^ b" using rp(1) by (simp add: divide_right_mono)
    also have "\<dots> \<le> of_nat P / of_nat Q"
      using rq(2) Qpos by (intro divide_left_mono) (simp_all add: PQ)
    finally show ?thesis using xr by simp
  qed
  have fl: "floor_log2 x = (if 2 powi d \<le> x then d else d - 1)"
    by (simp add: floor_log2_def pq d_def a_def b_def P_def Q_def)
  show ?thesis
  proof (cases "2 powi d \<le> x")
    case True
    with fl up show ?thesis by simp
  next
    case False
    with fl low show ?thesis by simp
  qed
qed

lemma floor_log2_unique:
  assumes "0 < x" and "2 powi e \<le> x" and "x < 2 powi (e + 1)"
  shows "floor_log2 x = e"
proof -
  from floor_log2_bounds [OF assms(1)]
  have b: "2 powi (floor_log2 x) \<le> x" "x < 2 powi (floor_log2 x + 1)" by simp_all
  from assms(2) b(2) have "(2::rat) powi e < 2 powi (floor_log2 x + 1)" by simp
  then have "e < floor_log2 x + 1" by (rule two_powi_less)
  moreover from b(1) assms(3) have "(2::rat) powi (floor_log2 x) < 2 powi (e + 1)" by simp
  then have "floor_log2 x < e + 1" by (rule two_powi_less)
  ultimately show ?thesis by simp
qed

lemma round_half_even_error: "\<bar>of_int (round_half_even y) - y\<bar> \<le> 1 / 2"
proof -
  have "of_int \<lfloor>y\<rfloor> \<le> y" "y < of_int \<lfloor>y\<rfloor> + 1" by linarith+
  then show ?thesis
    by (auto simp: round_half_even_def Let_def abs_le_iff)
qed

lemma round_half_even_int: "round_half_even (of_int k) = k"
  by (simp add: round_half_even_def)

lemma round_double_normal:
  assumes "0 < x" and "2 powi e \<le> x" and "x < 2 powi (e + 1)" and "- 1022 \<le> e" and "e < 1023"
  shows "round_double x =
    Finite (of_int (round_half_even (x / 2 powi (e - 52))) * 2 powi (e - 52))"
proof -
  from assms(1) have a: "\<bar>x\<bar> = x" "sgn x = 1" "x \<noteq> 0" by simp_all
  have f: "floor_log2 x = e" using assms(1-3) by (rule floor_log2_unique)
  from assms(4) have m: "max e (- 1022) = e" by simp
  from assms(5) have o: "\<not> (1023 < e \<or> (e = 1023 \<and> round_half_even (x / 2 powi (e - 52)) = 2 ^ 53))"
    by simp
  show ?thesis
    unfolding round_double_def Let_def a f m using a(3) o by simp
qed

lemma round_double_error:
  assumes "0 < x" and "2 powi (- 1022) \<le> x" and "x < 2 powi 1023"
  shows "\<exists>r. round_double x = Finite r \<and> \<bar>r - x\<bar> \<le> x / 2 ^ 53"
proof -
  define e where "e = floor_log2 x"
  from floor_log2_bounds [OF assms(1)]
  have b: "2 powi e \<le> x" "x < 2 powi (e + 1)" by (simp_all add: e_def)
  from assms(2) b(2) have "(2::rat) powi (- 1022) < 2 powi (e + 1)" by (rule le_less_trans)
  then have "- 1022 < e + 1" by (rule two_powi_less)
  then have lo: "- 1022 \<le> e" by arith
  from b(1) assms(3) have "(2::rat) powi e < 2 powi 1023" by (rule le_less_trans)
  then have hi: "e < 1023" by (rule two_powi_less)
  define q :: rat where "q = 2 powi (e - 52)"
  define n where "n = round_half_even (x / q)"
  have qpos: "0 < q" unfolding q_def by (rule two_powi_pos)
  have r: "round_double x = Finite (of_int n * q)"
    unfolding n_def q_def using assms(1) b lo hi by (rule round_double_normal)
  have "\<bar>of_int n * q - x\<bar> = \<bar>of_int n - x / q\<bar> * q"
  proof -
    have "of_int n * q - x = (of_int n - x / q) * q" using qpos by (simp add: field_simps)
    then show ?thesis using qpos by (simp add: abs_mult)
  qed
  also have "\<dots> \<le> 1 / 2 * q"
    using round_half_even_error [of "x / q"] qpos unfolding n_def
    by (intro mult_right_mono) simp_all
  also have "\<dots> = 2 powi e / 2 ^ 53"
  proof -
    have "q = 2 powi e / 2 powi 52" unfolding q_def by (rule power_int_diff) simp
    then show ?thesis by simp
  qed
  also have "\<dots> \<le> x / 2 ^ 53" using b(1) by (simp add: divide_right_mono)
  finally show ?thesis using r by blast
qed

lemma round_double_nat:
  assumes "n < 2 ^ 53"
  shows "round_double (of_nat n) = Finite (of_nat n)"
proof (cases "n = 0")
  case True
  then show ?thesis by (simp add: round_double_def)
next
  case False
  define x :: rat where "x = of_nat n"
  from False have xpos: "0 < x" and x1: "1 \<le> x" by (simp_all add: x_def)
  have xlt: "x < 2 ^ 53"
    using assms unfolding x_def by (metis of_nat_less_iff of_nat_numeral of_nat_power)
  define e where "e = floor_log2 x"
  from floor_log2_bounds [OF xpos]
  have b: "2 powi e \<le> x" "x < 2 powi (e + 1)" by (simp_all add: e_def)
  from x1 b(2) have "(2::rat) powi 0 < 2 powi (e + 1)" by simp
  then have lo: "0 \<le> e" using two_powi_less by fastforce
  from xlt b(1) have "(2::rat) powi e < 2 powi 53" by simp
  then have hi: "e < 53" by (rule two_powi_less)
  define k where "k = nat (52 - e)"
  from lo hi have ek: "e - 52 = - int k" by (simp add: k_def)
  have q: "(2::rat) powi (e - 52) = 1 / 2 ^ k"
    unfolding ek by (simp add: power_int_minus divide_inverse)
  have "(of_nat n :: rat) * 2 ^ k = of_int (int n * 2 ^ k)" by simp
  then have rh: "round_half_even (of_nat n * 2 ^ k) = int n * 2 ^ k"
    by (simp only: round_half_even_int)
  have "round_double x = Finite (of_int (round_half_even (x / 2 powi (e - 52))) * 2 powi (e - 52))"
    using xpos b lo hi by (intro round_double_normal) simp_all
  also have "of_int (round_half_even (x / 2 powi (e - 52))) * 2 powi (e - 52) = x"
    by (simp add: q x_def rh)
  finally show ?thesis by (simp add: x_def)
qed

lemma int_to_double_exact: "n < 2 ^ 53 \<Longrightarrow> int_to_double n = Finite (of_nat n)"
  by (simp add: int_to_double_def round_double_nat)

lemma hundred: "int_to_double 100 = Finite 100"
  using int_to_double_exact [of 100] by simp

lemma rate_of_counts_value:
  assumes "0 < tot" and "tot < 2 ^ 53" and "valid \<le> tot"
    and "round_double (of_nat valid / of_nat tot) = Finite q"
  shows "rate_of_counts valid tot = Inr (round_double (q * 100))"
proof -
  from assms(2,3) have "valid < 2 ^ 53" by simp
  then have v: "int_to_double valid = Finite (of_nat valid)" by (rule int_to_double_exact)
  from assms(2) have t: "int_to_double tot = Finite (of_nat tot)" by (rule int_to_double_exact)
  from assms(1) have "(of_nat tot :: rat) \<noteq> 0" by simp
  then show ?thesis
    by (simp add: rate_of_counts_def assms(1,4) v t hundred)
qed

lemma two_powi_small: "(2::rat) powi (- 1022) \<le> 1 / 2 ^ 60"
proof -
  have "(2::rat) powi (- 1022) \<le> 2 powi (- 60)" by (rule power_int_increasing) simp_all
  also have "\<dots> = 1 / 2 ^ 60" by (simp add: inverse_eq_divide)
  finally show ?thesis .
qed

lemma two_powi_large: "(2 ^ 10 :: rat) \<le> 2 powi 1023"
proof -
  have "(2 ^ 10 :: rat) = 2 powi 10" by simp
  also have "\<dots> \<le> 2 powi 1023" by (rule power_int_increasing) simp_all
  finally show ?thesis .
qed

lemma round_double_mid:
  assumes "1 / 2 ^ 60 \<le> x" and "x < 2 ^ 10"
  shows "\<exists>r. round_double x = Finite r \<and> \<bar>r - x\<bar> \<le> x / 2 ^ 53"
proof (rule round_double_error)
  have "(0::rat) < 1 / 2 ^ 60" by simp
  from this assms(1) show "0 < x" by (rule less_le_trans)
  from two_powi_small assms(1) show "2 powi (- 1022) \<le> x" by (rule order_trans)
  from assms(2) two_powi_large show "x < 2 powi 1023" by (rule less_le_trans)
qed

lemma abs_bounds: "\<bar>a - b\<bar> \<le> (c::rat) \<Longrightarrow> b - c \<le> a \<and> a \<le> b + c"
  by linarith

lemma rate_of_counts_bound:
  assumes "0 < tot" and "tot < 2 ^ 53" and "valid \<le> tot"
  shows "\<exists>q r. round_double (of_nat valid / of_nat tot) = Finite q \<and>
               round_double (q * 100) = Finite r \<and>
               rate_of_counts valid tot = Inr (Finite r) \<and>
               \<bar>r - of_nat valid / of_nat tot * 100\<bar> \<le> of_nat valid / of_nat tot * 100 / 2 ^ 51"
proof (cases "valid = 0")
  case True
  have q0: "round_double (of_nat valid / of_nat tot) = Finite 0"
    using True by (simp add: round_double_def)
  have r0: "round_double (0 * 100) = Finite 0"
    by (simp add: round_double_def)
  from rate_of_counts_value [OF assms q0] r0 have "rate_of_counts valid tot = Inr (Finite 0)"
    by simp
  with True q0 r0 show ?thesis by (intro exI [of _ 0]) simp
next
  case False
  define x :: rat where "x = of_nat valid / of_nat tot"
  define u :: rat where "u = 1 / 2 ^ 53"
  have u: "0 < u" "u \<le> 1 / 2" "1 / 2 ^ 60 \<le> u * 50" "u * 4 = 1 / 2 ^ 51"
    by (simp_all add: u_def)
  have tpos: "(0::rat) < of_nat tot" using assms(1) by simp
  have t53: "(of_nat tot :: rat) < 2 ^ 53"
    using assms(2) by (metis of_nat_less_iff of_nat_numeral of_nat_power)
  have x1: "x \<le> 1" using assms(3) tpos by (simp add: x_def)
  have "u * of_nat tot < 1" using t53 by (simp add: u_def)
  then have "u < 1 / of_nat tot" using tpos by (simp add: pos_less_divide_eq)
  also have "\<dots> \<le> x"
    using False tpos unfolding x_def by (intro divide_right_mono) simp_all
  finally have xlo: "u \<le> x" by simp
  with u(1) have xpos: "0 < x" by simp
  have xu: "0 \<le> x * u" "x * u \<le> x / 2"
    using xpos u(1,2) by (simp_all add: mult_left_mono [of u "1 / 2" x, simplified])
  have "\<exists>q. round_double x = Finite q \<and> \<bar>q - x\<bar> \<le> x / 2 ^ 53"
  proof (rule round_double_mid)
    have "(1::rat) / 2 ^ 60 \<le> u" by (simp add: u_def)
    with xlo show "1 / 2 ^ 60 \<le> x" by simp
    from x1 show "x < 2 ^ 10" by simp
  qed
  then obtain q where q: "round_double x = Finite q" "\<bar>q - x\<bar> \<le> x * u"
    by (auto simp: u_def)
  from abs_bounds [OF q(2)] xu have qlo: "x / 2 \<le> q" and qhi: "q \<le> 2 * x"
    by linarith+
  have "\<exists>r. round_double (q * 100) = Finite r \<and> \<bar>r - q * 100\<bar> \<le> q * 100 / 2 ^ 53"
  proof (rule round_double_mid)
    from xlo qlo have "u * 50 \<le> q * 100" by linarith
    with u(3) show "1 / 2 ^ 60 \<le> q * 100" by (rule order_trans)
    from qhi x1 have "q * 100 \<le> 200" by linarith
    then show "q * 100 < 2 ^ 10" by simp
  qed
  then obtain r where r: "round_double (q * 100) = Finite r" "\<bar>r - q * 100\<bar> \<le> q * 100 * u"
    by (auto simp: u_def)
  have rate: "rate_of_counts valid tot = Inr (Finite r)"
    using rate_of_counts_value [OF assms q(1) [unfolded x_def]] r(1) by simp
  have "q * 100 * u \<le> 2 * x * 100 * u"
    using qhi u(1) by (intro mult_right_mono) simp_all
  with abs_bounds [OF r(2)] abs_bounds [OF q(2)]
  have "x * 100 - 3 * (x * 100 * u) \<le> r" "r \<le> x * 100 + 3 * (x * 100 * u)"
    by linarith+
  moreover have "x * 100 * (u * 4) = 3 * (x * 100 * u) + 100 * (x * u)"
    by (simp add: algebra_simps)
  ultimately have "\<bar>r - x * 100\<bar> \<le> x * 100 * (u * 4)" using xu(1) by linarith
  then have "\<bar>r - x * 100\<bar> \<le> x * 100 / 2 ^ 51" by (simp only: u(4)) simp
  with rate q(1) r(1) show ?thesis unfolding x_def by blast
qed

lemma round_half_even_up:
  assumes "of_int k + 1 / 2 < y" and "y < of_int k + 1"
  shows "round_half_even y = k + 1"
proof -
  from assms have "\<lfloor>y\<rfloor> = k" by (intro floor_unique) simp_all
  with assms(1) show ?thesis by (simp add: round_half_even_def Let_def)
qed

lemma round_double_7_25: "round_double (7 / 25) = Finite (5044031582654956 / 2 ^ 54)"
proof -
  have "round_double (7 / 25) =
    Finite (of_int (round_half_even ((7 / 25) / 2 powi (- 2 - 52))) * 2 powi (- 2 - 52))"
    by (rule round_double_normal) (simp_all add: inverse_eq_divide)
  moreover have "(2::rat) powi (- 2 - 52) = 1 / 2 ^ 54" by (simp add: inverse_eq_divide)
  moreover have "round_half_even (126100789566373888 / 25) = 5044031582654955 + 1"
    by (rule round_half_even_up) simp_all
  ultimately show ?thesis by simp
qed

lemma round_double_28: "round_double (5044031582654956 / 2 ^ 54 * 100) = Finite (28 + 1 / 2 ^ 48)"
proof -
  have "round_double (5044031582654956 / 2 ^ 54 * 100) =
    Finite (of_int (round_half_even ((5044031582654956 / 2 ^ 54 * 100) / 2 powi (4 - 52))) * 2 powi (4 - 52))"
    by (rule round_double_normal) (simp_all add: inverse_eq_divide)
  moreover have "(2::rat) powi (4 - 52) = 1 / 2 ^ 48" by (simp add: inverse_eq_divide)
  moreover have "round_half_even (31525197391593475 / 4) = 7881299347898368 + 1"
    by (rule round_half_even_up) simp_all
  ultimately show ?thesis by simp
qed

lemma rate_7_of_25: "rate_of_counts 7 25 = Inr (Finite (28 + 1 / 2 ^ 48))"
  using rate_of_counts_value [of 25 7 "5044031582654956 / 2 ^ 54"] round_double_7_25 round_double_28
  by simp

lemma rate_1_of_1: "rate_of_counts 1 1 = Inr (Finite 100)"
  using rate_of_counts_value [of 1 1 1] round_double_nat [of 1] round_double_nat [of 100]
  by simp

section \<open>The statistics\<close>

lemma valid_count_le: "valid_count df \<le> total_rows df"
  by (simp add: valid_count_def total_rows_def)

text \<open>
  Claim C6, as the source has it. The validation rate is the share of valid rows as a
  percentage, computed on doubles: for a table with rows (fewer than \<open>2 ^ 53\<close>, so
  that the counts are doubles) it is the double nearest to 100 times the double
  nearest to \<open>valid_count / total\<close>, which is within \<open>2 ^ -51\<close> of its size of the
  exact percentage; for a table without rows it is 0. In neither case does the
  division fault. One valid row of one gives 100, and 7 valid rows of 25 give
  \<open>28 + 2 ^ -48\<close>, which Python prints as \<^verbatim>\<open>28.000000000000004\<close>.
\<close>

theorem validation_rate_percentage:
  "(0 < total_rows df \<and> total_rows df < 2 ^ 53 \<longrightarrow>
      (\<exists>q r. round_double (of_nat (valid_count df) / of_nat (total_rows df)) = Finite q \<and>
             round_double (q * 100) = Finite r \<and>
             validation_rate df = Inr (Finite r) \<and>
             \<bar>r - of_nat (valid_count df) / of_nat (total_rows df) * 100\<bar> \<le>
               of_nat (valid_count df) / of_nat (total_rows df) * 100 / 2 ^ 51)) \<and>
   (total_rows df = 0 \<longrightarrow> validation_rate df = Inr (Finite 0)) \<and>
   rate_of_counts 1 1 = Inr (Finite 100) \<and>
   rate_of_counts 7 25 = Inr (Finite (28 + 1 / 2 ^ 48))"
proof (intro conjI impI)
  assume "0 < total_rows df \<and> total_rows df < 2 ^ 53"
  then have "0 < total_rows df" "total_rows df < 2 ^ 53" by simp_all
  from rate_of_counts_bound [OF this valid_count_le]
  show "\<exists>q r. round_double (of_nat (valid_count df) / of_nat (total_rows df)) = Finite q \<and>
             round_double (q * 100) = Finite r \<and>
             validation_rate df = Inr (Finite r) \<and>
             \<bar>r - of_nat (valid_count df) / of_nat (total_rows df) * 100\<bar> \<le>
               of_nat (valid_count df) / of_nat (total_rows df) * 100 / 2 ^ 51"
    by (simp only: validation_rate_def)
next
  assume "total_rows df = 0"
  then show "validation_rate df = Inr (Finite 0)"
    by (simp add: validation_rate_def rate_of_counts_def)
next
  show "rate_of_counts 1 1 = Inr (Finite 100)" by (rule rate_1_of_1)
  show "rate_of_counts 7 25 = Inr (Finite (28 + 1 / 2 ^ 48))" by (rule rate_7_of_25)
qed

theorem validation_rate_percentage_witness:
  "0 < total_rows (validate_table [sound_row ''A'', sound_row ''A'']) \<and>
   total_rows (validate_table [sound_row ''A'', sound_row ''A'']) < 2 ^ 53 \<and>
   (\<exists>r. validation_rate (validate_table [sound_row ''A'', sound_row ''A'']) = Inr (Finite r) \<and>
        \<bar>r - 50\<bar> \<le> 50 / 2 ^ 51) \<and>
   validation_rate (validate_table ([] :: string order_row list)) = Inr (Finite 0)"
proof -
  have t: "total_rows (validate_table [sound_row ''A'', sound_row ''A'']) = 2"
    by (simp add: total_rows_def length_validate_table)
  have v: "valid_count (validate_table [sound_row ''A'', sound_row ''A'']) = 1"
    by code_simp
  have z: "total_rows (validate_table ([] :: string order_row list)) = 0"
    by (simp add: total_rows_def length_validate_table)
  have h: "0 < total_rows (validate_table [sound_row ''A'', sound_row ''A'']) \<and>
           total_rows (validate_table [sound_row ''A'', sound_row ''A'']) < 2 ^ 53"
    by (simp add: t)
  from validation_rate_percentage [of "validate_table [sound_row ''A'', sound_row ''A'']",
      THEN conjunct1, THEN mp, OF h]
  have a: "\<exists>r. validation_rate (validate_table [sound_row ''A'', sound_row ''A'']) = Inr (Finite r) \<and>
        \<bar>r - 50\<bar> \<le> 50 / 2 ^ 51"
    by (auto simp: t v)
  from validation_rate_percentage [of "validate_table ([] :: string order_row list)",
      THEN conjunct2, THEN conjunct1, THEN mp, OF z]
  have b: "validation_rate (validate_table ([] :: string order_row list)) = Inr (Finite 0)" .
  from h a b show ?thesis by (simp only: simp_thms)
qed

text \<open>
  Claim C6 as stated fails: on a table of one valid row the rate is 100, while
  \<open>valid_count / total\<close> is 1.
\<close>

theorem validation_rate_not_quotient:
  "0 < total_rows (validate_table [sound_row ''A'']) \<and>
   validation_rate (validate_table [sound_row ''A'']) = Inr (Finite 100) \<and>
   validation_rate (validate_table [sound_row ''A'']) \<noteq>
     Inr (Finite (of_nat (valid_count (validate_table [sound_row ''A''])) /
                  of_nat (total_rows (validate_table [sound_row ''A'']))))"
proof -
  have t: "total_rows (validate_table [sound_row ''A'']) = 1"
    by (simp add: total_rows_def length_validate_table)
  have v: "valid_count (validate_table [sound_row ''A'']) = 1"
    by code_simp
  have r: "validation_rate (validate_table [sound_row ''A'']) = Inr (Finite 100)"
    unfolding validation_rate_def t v by (rule rate_1_of_1)
  show ?thesis
    by (simp add: r t v)
qed

section \<open>The error filter\<close>

text \<open>
  Claim C10. With no reason selected, the filter returns the invalid rows it was
  given, all of them and in their order.
\<close>

theorem filter_without_selection: "filter_errors [] idf = idf"
  by (simp add: filter_errors_def)


section \<open>Identifiers\<close>

lemma duplicate_at:
  assumes "i < length df"
  shows "''Duplicate order_id'' \<in> set (reasons (validate_table df ! i)) \<longleftrightarrow>
         (\<exists>k. order_id (df ! i) = Some k \<and> (\<exists>j < i. order_id (df ! j) = Some k))"
  using assms by (simp add: reasons_validate_table duplicate_in_errors seen_before)

text \<open>
  Claim C1. In one run over a table, a row with an identifier carries the reason
  \<^verbatim>\<open>Duplicate order_id\<close> exactly when an earlier row of the table has the same
  identifier; so the first row with an identifier never carries it. For three rows
  with the identifiers A, A, B (A and B different), the second row carries the reason
  and the first and the third do not, whatever their other fields hold.
\<close>

theorem duplicate_iff_seen_earlier:
  "(\<forall>i < length df. \<forall>k. order_id (df ! i) = Some k \<longrightarrow>
      (''Duplicate order_id'' \<in> set (reasons (validate_table df ! i)) \<longleftrightarrow>
       (\<exists>j < i. order_id (df ! j) = Some k))) \<and>
   (a \<noteq> b \<and> order_id r1 = Some a \<and> order_id r2 = Some a \<and> order_id r3 = Some b \<longrightarrow>
      map (\<lambda>r. ''Duplicate order_id'' \<in> set (reasons r)) (validate_table [r1, r2, r3]) =
        [False, True, False])"
proof (intro conjI allI impI)
  fix i k
  assume "i < length df" "order_id (df ! i) = Some k"
  then show "''Duplicate order_id'' \<in> set (reasons (validate_table df ! i)) \<longleftrightarrow>
             (\<exists>j < i. order_id (df ! j) = Some k)"
    by (simp add: duplicate_at)
next
  assume h: "a \<noteq> b \<and> order_id r1 = Some a \<and> order_id r2 = Some a \<and> order_id r3 = Some b"
  let ?t = "validate_table [r1, r2, r3]"
  have len: "length ?t = 3" by (simp add: length_validate_table)
  have d0: "''Duplicate order_id'' \<notin> set (reasons (?t ! 0))"
    using duplicate_at [of 0 "[r1, r2, r3]"] by simp
  have d1: "''Duplicate order_id'' \<in> set (reasons (?t ! 1))"
    using duplicate_at [of 1 "[r1, r2, r3]"] h by simp
  have d2: "''Duplicate order_id'' \<notin> set (reasons (?t ! 2))"
    using duplicate_at [of 2 "[r1, r2, r3]"] h by (auto simp: less_Suc_eq numeral_2_eq_2)
  obtain x y z where t: "?t = [x, y, z]"
    using len by (auto simp: length_Suc_conv numeral_3_eq_3)
  from d0 d1 d2 show "map (\<lambda>r. ''Duplicate order_id'' \<in> set (reasons r)) ?t = [False, True, False]"
    unfolding t by simp
qed

theorem duplicate_iff_seen_earlier_witness:
  "''Duplicate order_id'' \<in> set (reasons (validate_table [sound_row ''A'', sound_row ''A'', sound_row ''B''] ! 1)) \<and>
   map (\<lambda>r. ''Duplicate order_id'' \<in> set (reasons r))
     (validate_table [sound_row ''A'', sound_row ''A'', sound_row ''B'']) = [False, True, False]"
proof -
  have ids: "order_id (sound_row ''A'') = Some ''A''" "order_id (sound_row ''B'') = Some ''B''"
    by (simp_all add: sound_row_def)
  have ne: "''A'' \<noteq> ''B''" by simp
  from duplicate_iff_seen_earlier
    [of "[sound_row ''A'', sound_row ''A'', sound_row ''B'']" "''A''" "''B''"
        "sound_row ''A''" "sound_row ''A''" "sound_row ''B''"]
  have g: "(\<forall>i < 3. \<forall>k. order_id ([sound_row ''A'', sound_row ''A'', sound_row ''B''] ! i) = Some k \<longrightarrow>
      (''Duplicate order_id'' \<in> set (reasons (validate_table [sound_row ''A'', sound_row ''A'', sound_row ''B''] ! i)) \<longleftrightarrow>
       (\<exists>j < i. order_id ([sound_row ''A'', sound_row ''A'', sound_row ''B''] ! j) = Some k)))"
   and m: "map (\<lambda>r. ''Duplicate order_id'' \<in> set (reasons r))
     (validate_table [sound_row ''A'', sound_row ''A'', sound_row ''B'']) = [False, True, False]"
    using ids ne by simp_all
  from g have "''Duplicate order_id'' \<in> set (reasons (validate_table [sound_row ''A'', sound_row ''A'', sound_row ''B''] ! 1)) \<longleftrightarrow>
       (\<exists>j < 1. order_id ([sound_row ''A'', sound_row ''A'', sound_row ''B''] ! j) = Some ''A'')"
    using ids by (elim allE [of _ 1] allE [of _ "''A''"]) simp
  with ids m show ?thesis by simp
qed

text \<open>
  Claim C5, as the source has it. A row whose identifier is absent (\<^verbatim>\<open>pd.isna\<close> holds
  of the cell, as for an empty cell of the file) gets the reason \<^verbatim>\<open>Missing order_id\<close>
  and never \<^verbatim>\<open>Duplicate order_id\<close>, and leaves the set of seen identifiers as it
  was; in a table this holds of every such row, whatever rows precede it.
\<close>

theorem missing_identifier_never_duplicate:
  "(order_id row = None \<longrightarrow>
      ''Missing order_id'' \<in> set (fst (collect_errors row seen)) \<and>
      ''Duplicate order_id'' \<notin> set (fst (collect_errors row seen)) \<and>
      snd (validate_row row seen) = seen) \<and>
   (\<forall>i < length df. order_id (df ! i) = None \<longrightarrow>
      ''Missing order_id'' \<in> set (reasons (validate_table df ! i)) \<and>
      ''Duplicate order_id'' \<notin> set (reasons (validate_table df ! i)))"
  by (simp add: reasons_validate_table duplicate_in_errors missing_id_in_errors snd_validate_row)

theorem missing_identifier_never_duplicate_witness:
  "order_id broken_row = None \<and>
   ''Missing order_id'' \<in> set (reasons (validate_table [broken_row, broken_row] ! 1)) \<and>
   ''Duplicate order_id'' \<notin> set (reasons (validate_table [broken_row, broken_row] ! 1))"
  using missing_identifier_never_duplicate [of broken_row "{}" "[broken_row, broken_row]"]
  by (simp add: broken_row_def)

text \<open>
  Claim C5 as stated fails for a blank identifier: a text of blanks is a value for
  \<^verbatim>\<open>pd.isna\<close>. Of two rows with the identifier of two blanks, neither gets
  \<^verbatim>\<open>Missing order_id\<close>, the first is valid and the second gets
  \<^verbatim>\<open>Duplicate order_id\<close>.
\<close>

theorem blank_identifier_is_present:
  "map reasons (validate_table [sound_row ''  '', sound_row ''  '']) =
     [[], [''Duplicate order_id'']] \<and>
   ''Missing order_id'' \<notin> set (reasons (validate_table [sound_row ''  '', sound_row ''  ''] ! 1)) \<and>
   ''Duplicate order_id'' \<in> set (reasons (validate_table [sound_row ''  '', sound_row ''  ''] ! 1))"
  by code_simp

section \<open>The five checks\<close>

lemma status_validate_row:
  "(fst (fst (validate_row row seen)) = ''Invalid'' \<longleftrightarrow> fst (collect_errors row seen) \<noteq> []) \<and>
   (fst (fst (validate_row row seen)) = ''Valid'' \<longleftrightarrow> fst (collect_errors row seen) = [])"
  by (simp add: fst_validate_row)

lemma id_errors_shape:
  "(id_errors row seen = [] \<or> id_errors row seen = [''Missing order_id''] \<or>
    id_errors row seen = [''Duplicate order_id'']) \<and>
   (id_errors row seen = [] \<longleftrightarrow> (\<exists>k. order_id row = Some k \<and> k \<notin> seen))"
  unfolding id_errors_def by (cases "order_id row") simp_all

lemma item_errors_shape:
  "(item_errors row = [] \<or> item_errors row = [''Missing item'']) \<and>
   (item_errors row = [] \<longleftrightarrow> (\<exists>s. item row = Some s \<and> str_strip s \<noteq> []))"
  unfolding item_errors_def by (cases "item row") simp_all

lemma date_errors_shape:
  "(date_errors row = [] \<or> date_errors row = [''Invalid date (dd/mm/yyyy or mm-dd-yyyy)'']) \<and>
   (date_errors row = [] \<longleftrightarrow> (\<exists>s. date row = Some s \<and> validate_date s))"
  unfolding date_errors_def by (cases "date row") simp_all

lemma quantity_errors_shape:
  "(quantity_errors row = [] \<or> quantity_errors row = [''Negative quantity''] \<or>
    quantity_errors row = [''Invalid quantity'']) \<and>
   (quantity_errors row = [] \<longleftrightarrow> (\<exists>q. py_int (quantity row) = Inr q \<and> 0 \<le> q))"
  unfolding quantity_errors_def by (cases "py_int (quantity row)") auto

lemma price_errors_shape:
  "(price_errors row = [] \<or> price_errors row = [''Negative price''] \<or>
    price_errors row = [''Invalid price'']) \<and>
   (price_errors row = [] \<longleftrightarrow> (\<exists>p. py_float (price row) = Inr p \<and> \<not> float_negative p))"
  unfolding price_errors_def by (cases "py_float (price row)") auto

text \<open>
  Claim C2. The reasons of a row are the reasons of the five checks one after the
  other, in the order identifier, item, date, quantity, price: each check contributes
  one reason when it fails and nothing when it passes, whatever the other checks
  find. The status is \<^verbatim>\<open>Invalid\<close> exactly when this list is not empty and \<^verbatim>\<open>Valid\<close>
  exactly when it is empty, and cutting the message at \<^verbatim>\<open>"; "\<close> gives the list back.
\<close>

theorem all_checks_in_order:
  "(\<exists>e1 e2 e3 e4 e5.
      fst (collect_errors row seen) = e1 @ e2 @ e3 @ e4 @ e5 \<and>
      (e1 = [] \<or> e1 = [''Missing order_id''] \<or> e1 = [''Duplicate order_id'']) \<and>
      (e1 = [] \<longleftrightarrow> (\<exists>k. order_id row = Some k \<and> k \<notin> seen)) \<and>
      (e2 = [] \<or> e2 = [''Missing item'']) \<and>
      (e2 = [] \<longleftrightarrow> (\<exists>s. item row = Some s \<and> str_strip s \<noteq> [])) \<and>
      (e3 = [] \<or> e3 = [''Invalid date (dd/mm/yyyy or mm-dd-yyyy)'']) \<and>
      (e3 = [] \<longleftrightarrow> (\<exists>s. date row = Some s \<and> validate_date s)) \<and>
      (e4 = [] \<or> e4 = [''Negative quantity''] \<or> e4 = [''Invalid quantity'']) \<and>
      (e4 = [] \<longleftrightarrow> (\<exists>q. py_int (quantity row) = Inr q \<and> 0 \<le> q)) \<and>
      (e5 = [] \<or> e5 = [''Negative price''] \<or> e5 = [''Invalid price'']) \<and>
      (e5 = [] \<longleftrightarrow> (\<exists>p. py_float (price row) = Inr p \<and> \<not> float_negative p))) \<and>
   (fst (fst (validate_row row seen)) = ''Invalid'' \<longleftrightarrow> fst (collect_errors row seen) \<noteq> []) \<and>
   (fst (fst (validate_row row seen)) = ''Valid'' \<longleftrightarrow> fst (collect_errors row seen) = []) \<and>
   reasons \<lparr>source_row = row, status = fst (fst (validate_row row seen)),
            error_message = snd (fst (validate_row row seen))\<rparr> = fst (collect_errors row seen)"
proof (intro conjI)
  show "\<exists>e1 e2 e3 e4 e5.
      fst (collect_errors row seen) = e1 @ e2 @ e3 @ e4 @ e5 \<and>
      (e1 = [] \<or> e1 = [''Missing order_id''] \<or> e1 = [''Duplicate order_id'']) \<and>
      (e1 = [] \<longleftrightarrow> (\<exists>k. order_id row = Some k \<and> k \<notin> seen)) \<and>
      (e2 = [] \<or> e2 = [''Missing item'']) \<and>
      (e2 = [] \<longleftrightarrow> (\<exists>s. item row = Some s \<and> str_strip s \<noteq> [])) \<and>
      (e3 = [] \<or> e3 = [''Invalid date (dd/mm/yyyy or mm-dd-yyyy)'']) \<and>
      (e3 = [] \<longleftrightarrow> (\<exists>s. date row = Some s \<and> validate_date s)) \<and>
      (e4 = [] \<or> e4 = [''Negative quantity''] \<or> e4 = [''Invalid quantity'']) \<and>
      (e4 = [] \<longleftrightarrow> (\<exists>q. py_int (quantity row) = Inr q \<and> 0 \<le> q)) \<and>
      (e5 = [] \<or> e5 = [''Negative price''] \<or> e5 = [''Invalid price'']) \<and>
      (e5 = [] \<longleftrightarrow> (\<exists>p. py_float (price row) = Inr p \<and> \<not> float_negative p))"
    apply (rule exI [of _ "id_errors row seen"])
    apply (rule exI [of _ "item_errors row"])
    apply (rule exI [of _ "date_errors row"])
    apply (rule exI [of _ "quantity_errors row"])
    apply (rule exI [of _ "price_errors row"])
    apply (intro conjI)
              apply (rule collect_errors_fst)
             apply (rule id_errors_shape [THEN conjunct1])
            apply (rule id_errors_shape [THEN conjunct2])
           apply (rule item_errors_shape [THEN conjunct1])
          apply (rule item_errors_shape [THEN conjunct2])
         apply (rule date_errors_shape [THEN conjunct1])
        apply (rule date_errors_shape [THEN conjunct2])
       apply (rule quantity_errors_shape [THEN conjunct1])
      apply (rule quantity_errors_shape [THEN conjunct2])
     apply (rule price_errors_shape [THEN conjunct1])
    apply (rule price_errors_shape [THEN conjunct2])
    done
qed (simp_all only: status_validate_row reasons_validate_row)

theorem all_checks_in_order_witness:
  "fst (collect_errors broken_row {}) =
     [''Missing order_id'', ''Missing item'', ''Invalid date (dd/mm/yyyy or mm-dd-yyyy)'',
      ''Invalid quantity'', ''Invalid price''] \<and>
   fst (fst (validate_row broken_row {})) = ''Invalid'' \<and>
   reasons \<lparr>source_row = broken_row, status = fst (fst (validate_row broken_row {})),
            error_message = snd (fst (validate_row broken_row {}))\<rparr> =
     [''Missing order_id'', ''Missing item'', ''Invalid date (dd/mm/yyyy or mm-dd-yyyy)'',
      ''Invalid quantity'', ''Invalid price'']"
proof -
  have e: "fst (collect_errors broken_row {}) =
     [''Missing order_id'', ''Missing item'', ''Invalid date (dd/mm/yyyy or mm-dd-yyyy)'',
      ''Invalid quantity'', ''Invalid price'']"
    by code_simp
  note t = all_checks_in_order [of broken_row "{}"]
  have "fst (fst (validate_row broken_row {})) = ''Invalid'' \<longleftrightarrow>
        fst (collect_errors broken_row {}) \<noteq> []"
    by (rule t [THEN conjunct2, THEN conjunct1])
  then have st: "fst (fst (validate_row broken_row {})) = ''Invalid''"
    by (simp add: e)
  have rs: "reasons \<lparr>source_row = broken_row, status = fst (fst (validate_row broken_row {})),
            error_message = snd (fst (validate_row broken_row {}))\<rparr> =
            fst (collect_errors broken_row {})"
    by (rule t [THEN conjunct2, THEN conjunct2, THEN conjunct2])
  show ?thesis
    by (intro conjI) (rule e, rule st, rule trans [OF rs e])
qed



section \<open>Filtering by reasons\<close>

lemma contains_join_iff:
  assumes "e \<in> set reason_texts" and "set xs \<subseteq> set reason_texts"
  shows "str_contains e (str_join ''; '' xs) \<longleftrightarrow> e \<in> set xs"
proof
  assume "str_contains e (str_join ''; '' xs)"
  then have "sublist e (str_join [CHR '';'', CHR '' ''] xs)"
    by (simp add: str_contains_sublist)
  moreover from assms(1) reason_texts_shape
  have "CHR '';'' \<notin> set e" "e \<noteq> []" "hd e \<noteq> CHR '' ''" by blast+
  ultimately obtain x where x: "x \<in> set xs" "sublist e x"
    using sublist_join_piece by blast
  from x(1) assms(2) have "x \<in> set reason_texts" by blast
  with assms(1) x(2) reason_texts_apart have "e = x"
    by (simp add: str_contains_sublist)
  with x(1) show "e \<in> set xs" by simp
next
  assume "e \<in> set xs"
  then show "str_contains e (str_join ''; '' xs)"
    by (simp add: str_contains_sublist sublist_join)
qed

lemma validate_table_row:
  fixes df :: "'k order_row list"
  assumes "r \<in> set (validate_table df)"
  shows "\<exists>(row :: 'k order_row) seen. status r = fst (fst (validate_row row seen)) \<and>
                    error_message r = snd (fst (validate_row row seen)) \<and>
                    reasons r = fst (collect_errors row seen)"
proof -
  from assms obtain i where i: "i < length df" "r = validate_table df ! i"
    by (auto simp: in_set_conv_nth length_validate_table)
  show ?thesis
    apply (rule exI [of _ "df ! i"])
    apply (rule exI [of _ "seen_after {} (take i df)"])
    using i by (simp add: validate_table_nth reasons_validate_row)
qed

lemma invalid_row_contains:
  fixes df :: "'k order_row list"
  assumes "r \<in> set (invalid_df (validate_table df))" and "e \<in> set reason_texts"
  shows "str_contains e (error_message r) \<longleftrightarrow> e \<in> set (reasons r)"
proof -
  from assms(1) have r: "r \<in> set (validate_table df)" and inv: "status r = ''Invalid''"
    by (simp_all add: invalid_df_def)
  from validate_table_row [OF r] obtain row :: "'k order_row" and seen where
    v: "status r = fst (fst (validate_row row seen))"
       "error_message r = snd (fst (validate_row row seen))"
       "reasons r = fst (collect_errors row seen)"
    by blast
  from inv v(1) have ne: "fst (collect_errors row seen) \<noteq> []"
    by (simp add: fst_validate_row split: if_splits)
  with v(2) have "error_message r = str_join ''; '' (fst (collect_errors row seen))"
    by (simp add: fst_validate_row)
  with v(3) assms(2) collect_errors_texts [of row seen] show ?thesis
    by (simp add: contains_join_iff)
qed

text \<open>
  Claim C8. On the invalid rows of a validated table and a non-empty selection of
  reason texts, the filter keeps exactly the rows whose reasons hold at least one
  selected reason, in their order; the other reasons of a row play no part. With
  \<^verbatim>\<open>Missing item\<close> alone selected it keeps exactly the rows whose reasons hold
  \<^verbatim>\<open>Missing item\<close>. (The source looks for the selected text inside the message; for
  the reason texts of \<^verbatim>\<open>validate_row\<close> that is membership in the reasons.)
\<close>

theorem filter_by_selected_reasons:
  "(selected \<noteq> [] \<and> set selected \<subseteq> set reason_texts \<longrightarrow>
     filter_errors selected (invalid_df (validate_table df)) =
       filter (\<lambda>r. \<exists>e \<in> set selected. e \<in> set (reasons r)) (invalid_df (validate_table df))) \<and>
     filter_errors [''Missing item''] (invalid_df (validate_table df)) =
       filter (\<lambda>r. ''Missing item'' \<in> set (reasons r)) (invalid_df (validate_table df))"
proof (intro impI conjI)
  assume h: "selected \<noteq> [] \<and> set selected \<subseteq> set reason_texts"
  have "filter (\<lambda>r. list_ex (\<lambda>err. str_contains err (error_message r)) selected)
          (invalid_df (validate_table df)) =
        filter (\<lambda>r. \<exists>e \<in> set selected. e \<in> set (reasons r)) (invalid_df (validate_table df))"
  proof (rule filter_cong [OF refl])
    fix r assume "r \<in> set (invalid_df (validate_table df))"
    with h show "list_ex (\<lambda>err. str_contains err (error_message r)) selected \<longleftrightarrow>
                 (\<exists>e \<in> set selected. e \<in> set (reasons r))"
      using invalid_row_contains [of r df] by (auto simp: list_ex_iff)
  qed
  with h show "filter_errors selected (invalid_df (validate_table df)) =
       filter (\<lambda>r. \<exists>e \<in> set selected. e \<in> set (reasons r)) (invalid_df (validate_table df))"
    by (simp add: filter_errors_def)
next
  have m: "''Missing item'' \<in> set reason_texts" by (simp add: reason_texts_def)
  have "filter (\<lambda>r. str_contains ''Missing item'' (error_message r)) (invalid_df (validate_table df)) =
        filter (\<lambda>r. ''Missing item'' \<in> set (reasons r)) (invalid_df (validate_table df))"
    by (rule filter_cong [OF refl]) (simp add: invalid_row_contains [OF _ m])
  then show "filter_errors [''Missing item''] (invalid_df (validate_table df)) =
       filter (\<lambda>r. ''Missing item'' \<in> set (reasons r)) (invalid_df (validate_table df))"
    by (simp add: filter_errors_def)
qed


theorem filter_by_selected_reasons_witness:
  "[''Missing item'', ''Duplicate order_id''] \<noteq> [] \<and>
   set [''Missing item'', ''Duplicate order_id''] \<subseteq> set reason_texts \<and>
   filter_errors [''Missing item'', ''Duplicate order_id'']
     (invalid_df (validate_table [sound_row ''A'', sound_row ''A'', broken_row, sound_row ''B''])) =
   filter (\<lambda>r. \<exists>e \<in> set [''Missing item'', ''Duplicate order_id'']. e \<in> set (reasons r))
     (invalid_df (validate_table [sound_row ''A'', sound_row ''A'', broken_row, sound_row ''B''])) \<and>
   map source_row (filter_errors [''Missing item'', ''Duplicate order_id'']
     (invalid_df (validate_table [sound_row ''A'', sound_row ''A'', broken_row, sound_row ''B'']))) =
   [sound_row ''A'', broken_row]"
proof -
  have h: "[''Missing item'', ''Duplicate order_id''] \<noteq> [] \<and>
           set [''Missing item'', ''Duplicate order_id''] \<subseteq> set reason_texts"
    by (simp add: reason_texts_def)
  have v: "map source_row (filter_errors [''Missing item'', ''Duplicate order_id'']
     (invalid_df (validate_table [sound_row ''A'', sound_row ''A'', broken_row, sound_row ''B'']))) =
     [sound_row ''A'', broken_row]"
    by code_simp
  note t = filter_by_selected_reasons [of "[''Missing item'', ''Duplicate order_id'']"
      "[sound_row ''A'', sound_row ''A'', broken_row, sound_row ''B'']", THEN conjunct1, THEN mp, OF h]
  from h t v show ?thesis by (intro conjI) (rule conjunct1, assumption, rule conjunct2, assumption)
qed

section \<open>Aggregation and filtering again\<close>

lemma dom_counter_add: "dom (counter_add m k) = insert k (dom m)"
  by (simp add: counter_add_def)

lemma dom_foldl_counter: "dom (foldl counter_add m xs) = dom m \<union> set xs"
  by (induction xs arbitrary: m) (auto simp: dom_counter_add)

lemma dom_counter: "dom (counter xs) = set xs"
  by (simp add: counter_def dom_foldl_counter)

lemma split_from_nonempty: "split_from sep acc s \<noteq> []"
  by (induction sep acc s rule: split_from.induct) auto

lemma split_from_pieces:
  "p \<in> set (split_from sep acc s) \<Longrightarrow> sublist p (rev acc @ s)"
proof (induction sep acc s rule: split_from.induct)
  case (1 sep acc)
  then show ?case by simp
next
  case (2 sep acc c cs)
  show ?case
  proof (cases "sep \<noteq> [] \<and> prefix sep (c # cs)")
    case True
    with 2(3) have "p = rev acc \<or> p \<in> set (split_from sep [] (drop (length sep) (c # cs)))"
      by simp
    then show ?thesis
    proof
      assume "p = rev acc" then show ?thesis by simp
    next
      assume "p \<in> set (split_from sep [] (drop (length sep) (c # cs)))"
      with 2(1) True have "sublist p (drop (length sep) (c # cs))" by simp
      moreover have "sublist (drop (length sep) (c # cs)) (rev acc @ c # cs)"
        by (metis append_take_drop_id sublist_append_leftI append_assoc)
      ultimately show ?thesis by (rule sublist_order.order_trans)
    qed
  next
    case False
    with 2(3) have "p \<in> set (split_from sep (c # acc) cs)" by auto
    with 2(2) False show ?thesis by simp
  qed
qed

lemma split_piece_contained:
  "p \<in> set (str_split msg sep) \<Longrightarrow> str_contains p msg"
  using split_from_pieces [of p sep "[]" msg] by (simp add: str_split_def str_contains_sublist)

text \<open>
  Claim C9. Filtering the invalid rows by each key of the error counts in turn and
  taking the union gives all invalid rows.
\<close>

theorem refilter_by_every_key:
  "(\<Union>k \<in> (case error_counts df of None \<Rightarrow> {} | Some m \<Rightarrow> dom m).
      set (filter_errors [k] (invalid_df df))) = set (invalid_df df)"
proof
  show "(\<Union>k \<in> (case error_counts df of None \<Rightarrow> {} | Some m \<Rightarrow> dom m).
      set (filter_errors [k] (invalid_df df))) \<subseteq> set (invalid_df df)"
    by (auto simp: filter_errors_def)
next
  show "set (invalid_df df) \<subseteq>
    (\<Union>k \<in> (case error_counts df of None \<Rightarrow> {} | Some m \<Rightarrow> dom m).
      set (filter_errors [k] (invalid_df df)))"
  proof
    fix r assume r: "r \<in> set (invalid_df df)"
    obtain k where k: "k \<in> set (str_split (error_message r) ''; '')"
      using split_from_nonempty [of "''; ''" "[]" "error_message r"]
      by (cases "str_split (error_message r) ''; ''") (auto simp: str_split_def)
    with r have kl: "k \<in> set (error_list df)"
      by (auto simp: error_list_def)
    then have "error_list df \<noteq> []" by auto
    with kl have "k \<in> (case error_counts df of None \<Rightarrow> {} | Some m \<Rightarrow> dom m)"
      by (simp add: error_counts_def dom_counter)
    moreover from k have "str_contains k (error_message r)"
      by (rule split_piece_contained)
    with r have "r \<in> set (filter_errors [k] (invalid_df df))"
      by (simp add: filter_errors_def)
    ultimately show "r \<in> (\<Union>k \<in> (case error_counts df of None \<Rightarrow> {} | Some m \<Rightarrow> dom m).
      set (filter_errors [k] (invalid_df df)))"
      by blast
  qed
qed

section \<open>Date validation\<close>

lemma in_alt: "p \<in> set (alt n f s) \<longleftrightarrow> n \<le> length s \<and> f (take n s) \<and> p = take n s"
  by (auto simp: alt_def)

lemma alt_self: "p \<in> set (alt n f s) \<Longrightarrow> p \<in> set (alt n f p)"
  by (auto simp: in_alt)

lemma alt_extend: "p \<in> set (alt n f p) \<Longrightarrow> p \<in> set (alt n f (p @ t))"
  by (auto simp: in_alt)

lemma alt_prefix: "p \<in> set (alt n f s) \<Longrightarrow> prefix p s"
  by (auto simp: in_alt take_is_prefix)

lemma candidates_prefix: "p \<in> set (candidates d s) \<Longrightarrow> prefix p s"
  by (cases d) (auto dest: alt_prefix)

lemma candidates_self: "p \<in> set (candidates d s) \<Longrightarrow> group_matches d p"
  unfolding group_matches_def by (cases d) (auto dest: alt_self)

lemma candidates_extend: "group_matches d p \<Longrightarrow> p \<in> set (candidates d (p @ t))"
  unfolding group_matches_def by (cases d) (auto dest: alt_extend)

lemma first_success_Some: "first_success xs = Some v \<Longrightarrow> Some v \<in> set xs"
  by (induction xs rule: first_success.induct) auto

lemma first_success_exists: "Some v \<in> set xs \<Longrightarrow> first_success xs \<noteq> None"
  by (induction xs rule: first_success.induct) auto

lemma re_match_sound:
  "re_match ds s = Some (gs, rest) \<Longrightarrow>
   map fst gs = ds \<and> s = concat (map snd gs) @ rest \<and> (\<forall>(d, p) \<in> set gs. group_matches d p)"
proof (induction ds arbitrary: s gs rest)
  case Nil
  then show ?case by simp
next
  case (Cons d ds)
  from Cons.prems have "first_success (map (\<lambda>p. map_option (\<lambda>(gs, rest). ((d, p) # gs, rest))
      (re_match ds (drop (length p) s))) (candidates d s)) = Some (gs, rest)"
    by simp
  then have "Some (gs, rest) \<in> set (map (\<lambda>p. map_option (\<lambda>(gs, rest). ((d, p) # gs, rest))
      (re_match ds (drop (length p) s))) (candidates d s))"
    by (rule first_success_Some)
  then obtain p where p: "p \<in> set (candidates d s)"
    and m: "Some (gs, rest) = map_option (\<lambda>(gs, rest). ((d, p) # gs, rest)) (re_match ds (drop (length p) s))"
    by (auto simp: image_iff)
  obtain gs' where r: "re_match ds (drop (length p) s) = Some (gs', rest)"
    and g: "gs = (d, p) # gs'"
  proof (cases "re_match ds (drop (length p) s)")
    case None
    with m show ?thesis by simp
  next
    case (Some v)
    with m that show ?thesis by (cases v) simp
  qed
  from Cons.IH [OF r] have ih: "map fst gs' = ds" "drop (length p) s = concat (map snd gs') @ rest"
    "\<forall>(d, p) \<in> set gs'. group_matches d p" by auto
  from p have "prefix p s" by (rule candidates_prefix)
  then have "s = p @ drop (length p) s" by (auto simp: prefix_def)
  with ih(2) have "s = p @ concat (map snd gs') @ rest" by simp
  with ih(1,3) g candidates_self [OF p] show ?case by simp
qed

lemma re_match_complete:
  "map fst gs = ds \<Longrightarrow> \<forall>(d, p) \<in> set gs. group_matches d p \<Longrightarrow>
   re_match ds (concat (map snd gs) @ rest) \<noteq> None"
proof (induction gs arbitrary: ds)
  case Nil
  then show ?case by auto
next
  case (Cons g gs)
  obtain d p where g: "g = (d, p)" by (cases g)
  with Cons.prems obtain ds' where ds: "ds = d # ds'" "map fst gs = ds'" by auto
  from Cons.prems g have gm: "group_matches d p" and rest: "\<forall>(d, p) \<in> set gs. group_matches d p"
    by auto
  from Cons.IH [OF ds(2) rest] obtain v where v: "re_match ds' (concat (map snd gs) @ rest) = Some v"
    by auto
  let ?s = "concat (map snd (g # gs)) @ rest"
  have "p \<in> set (candidates d ?s)"
    using candidates_extend [OF gm, of "concat (map snd gs) @ rest"] g by simp
  moreover have "map_option (\<lambda>(gs, rest). ((d, p) # gs, rest)) (re_match ds' (drop (length p) ?s)) =
     Some (case v of (gs, rest) \<Rightarrow> ((d, p) # gs, rest))"
    using v g by simp
  ultimately have "Some (case v of (gs, rest) \<Rightarrow> ((d, p) # gs, rest)) \<in>
     set (map (\<lambda>p. map_option (\<lambda>(gs, rest). ((d, p) # gs, rest)) (re_match ds' (drop (length p) ?s)))
            (candidates d ?s))"
    by (metis (no_types, lifting) image_eqI list.set_map)
  then show ?case unfolding ds(1) re_match.simps by (rule first_success_exists)
qed

lemma is_digit_cases:
  "is_digit c \<longleftrightarrow> c = CHR ''0'' \<or> c = CHR ''1'' \<or> c = CHR ''2'' \<or> c = CHR ''3'' \<or> c = CHR ''4'' \<or>
     c = CHR ''5'' \<or> c = CHR ''6'' \<or> c = CHR ''7'' \<or> c = CHR ''8'' \<or> c = CHR ''9''"
  by (auto simp: is_digit_def)

lemma is_nonzero_digit_cases:
  "is_nonzero_digit c \<longleftrightarrow> c = CHR ''1'' \<or> c = CHR ''2'' \<or> c = CHR ''3'' \<or> c = CHR ''4'' \<or>
     c = CHR ''5'' \<or> c = CHR ''6'' \<or> c = CHR ''7'' \<or> c = CHR ''8'' \<or> c = CHR ''9''"
  by (auto simp: is_nonzero_digit_def)

lemma nonzero_digit_iff: "is_nonzero_digit c \<longleftrightarrow> is_digit c \<and> 1 \<le> digit_val c"
  by (auto simp: is_digit_cases is_nonzero_digit_cases digit_val_def)

lemma digit_val_le: "is_digit c \<Longrightarrow> digit_val c \<le> 9"
  by (auto simp: is_digit_cases digit_val_def)

lemma digit_val_eq:
  "is_digit c \<Longrightarrow> (digit_val c = 0 \<longleftrightarrow> c = CHR ''0'') \<and> (digit_val c = 1 \<longleftrightarrow> c = CHR ''1'') \<and>
     (digit_val c = 2 \<longleftrightarrow> c = CHR ''2'') \<and> (digit_val c = 3 \<longleftrightarrow> c = CHR ''3'')"
  by (auto simp: is_digit_cases digit_val_def)

lemma nat_of_digits_1: "nat_of_digits [a] = digit_val a"
  by (simp add: nat_of_digits_def)

lemma nat_of_digits_2: "nat_of_digits [a, b] = 10 * digit_val a + digit_val b"
  by (simp add: nat_of_digits_def)

lemma space_not_digit: "\<not> is_digit (CHR '' '')"
  by (simp add: is_digit_def)

lemma in_alt_self: "p \<in> set (alt n f p) \<longleftrightarrow> length p = n \<and> f p"
proof -
  have "n \<le> length p \<and> p = take n p \<longleftrightarrow> length p = n"
    by (metis length_take min.absorb2 order_refl take_all)
  then show ?thesis by (auto simp: in_alt)
qed

lemma digit_char_eq:
  assumes "is_digit c"
  shows "c = CHR ''0'' \<longleftrightarrow> digit_val c = 0" "c = CHR ''1'' \<longleftrightarrow> digit_val c = 1"
    "c = CHR ''2'' \<longleftrightarrow> digit_val c = 2" "c = CHR ''3'' \<longleftrightarrow> digit_val c = 3"
  using digit_val_eq [OF assms] by simp_all

lemma two_digits_day:
  assumes "is_digit a" and "is_digit b"
  shows "1 \<le> 10 * digit_val a + digit_val b \<and> 10 * digit_val a + digit_val b \<le> 31 \<longleftrightarrow>
   (a = CHR ''3'' \<and> (b = CHR ''0'' \<or> b = CHR ''1'')) \<or>
   (a = CHR ''1'' \<or> a = CHR ''2'') \<or>
   (a = CHR ''0'' \<and> is_nonzero_digit b)"
proof -
  have "digit_val a \<le> 9" "digit_val b \<le> 9" using assms by (simp_all add: digit_val_le)
  then show ?thesis
    unfolding digit_char_eq [OF assms(1)] digit_char_eq [OF assms(2)] nonzero_digit_iff
    using assms(2) by simp arith
qed

lemma two_digits_month:
  assumes "is_digit a" and "is_digit b"
  shows "1 \<le> 10 * digit_val a + digit_val b \<and> 10 * digit_val a + digit_val b \<le> 12 \<longleftrightarrow>
   (a = CHR ''1'' \<and> (b = CHR ''0'' \<or> b = CHR ''1'' \<or> b = CHR ''2'')) \<or>
   (a = CHR ''0'' \<and> is_nonzero_digit b)"
proof -
  have "digit_val a \<le> 9" "digit_val b \<le> 9" using assms by (simp_all add: digit_val_le)
  then show ?thesis
    unfolding digit_char_eq [OF assms(1)] digit_char_eq [OF assms(2)] nonzero_digit_iff
    using assms(2) by simp arith
qed

lemma one_digit_field:
  "is_digit a \<and> 1 \<le> digit_val a \<and> digit_val a \<le> 31 \<longleftrightarrow> is_nonzero_digit a"
  "is_digit a \<and> 1 \<le> digit_val a \<and> digit_val a \<le> 12 \<longleftrightarrow> is_nonzero_digit a"
  using digit_val_le [of a] by (auto simp: nonzero_digit_iff)

lemma char_digits:
  "is_digit (CHR ''0'')" "is_digit (CHR ''1'')" "is_digit (CHR ''2'')" "is_digit (CHR ''3'')"
  by (simp_all add: is_digit_def)

lemma nonzero_is_digit: "is_nonzero_digit c \<Longrightarrow> is_digit c"
  by (simp add: nonzero_digit_iff)

lemma list_shape:
  obtains "d = []" | a where "d = [a]" | a b where "d = [a, b]" | "2 < length d"
proof (cases d)
  case Nil
  then show ?thesis using that by simp
next
  case (Cons a d1)
  show ?thesis
  proof (cases d1)
    case Nil
    with Cons show ?thesis using that by simp
  next
    case (Cons b d2)
    with \<open>d = a # d1\<close> show ?thesis using that by (cases d2) simp_all
  qed
qed

lemma matches_day: "group_matches Day d \<longleftrightarrow> day_text d"
proof (cases d rule: list_shape)
  case 1
  then show ?thesis by (simp add: group_matches_def in_alt_self day_text_def)
next
  case (2 a)
  then show ?thesis
    using one_digit_field(1) [of a]
    by (simp add: group_matches_def in_alt_self day_text_def nat_of_digits_1)
next
  case (3 a b)
  have l: "group_matches Day d \<longleftrightarrow>
      (a = CHR ''3'' \<and> (b = CHR ''0'' \<or> b = CHR ''1'')) \<or>
      ((a = CHR ''1'' \<or> a = CHR ''2'') \<and> is_digit b) \<or>
      (a = CHR ''0'' \<and> is_nonzero_digit b) \<or>
      (a = CHR '' '' \<and> is_nonzero_digit b)"
    using 3 by (simp add: group_matches_def in_alt_self)
  have r: "day_text d \<longleftrightarrow>
      (is_digit a \<and> is_digit b \<and> 1 \<le> 10 * digit_val a + digit_val b \<and>
       10 * digit_val a + digit_val b \<le> 31) \<or>
      (a = CHR '' '' \<and> is_nonzero_digit b)"
    using 3 by (simp add: day_text_def nat_of_digits_2)
  show ?thesis
  proof (cases "is_digit a \<and> is_digit b")
    case True
    then show ?thesis
      unfolding l r using two_digits_day [of a b] by blast
  next
    case False
    then show ?thesis
      unfolding l r using char_digits nonzero_is_digit [of b] by auto
  qed
next
  case 4
  then show ?thesis by (auto simp: group_matches_def in_alt_self day_text_def)
qed

lemma matches_month: "group_matches Month m \<longleftrightarrow> month_text m"
proof (cases m rule: list_shape)
  case 1
  then show ?thesis by (simp add: group_matches_def in_alt_self month_text_def)
next
  case (2 a)
  then show ?thesis
    using one_digit_field(2) [of a]
    by (simp add: group_matches_def in_alt_self month_text_def nat_of_digits_1)
next
  case (3 a b)
  have l: "group_matches Month m \<longleftrightarrow>
      (a = CHR ''1'' \<and> (b = CHR ''0'' \<or> b = CHR ''1'' \<or> b = CHR ''2'')) \<or>
      (a = CHR ''0'' \<and> is_nonzero_digit b)"
    using 3 by (simp add: group_matches_def in_alt_self)
  have r: "month_text m \<longleftrightarrow>
      (is_digit a \<and> is_digit b \<and> 1 \<le> 10 * digit_val a + digit_val b \<and>
       10 * digit_val a + digit_val b \<le> 12)"
    using 3 by (simp add: month_text_def nat_of_digits_2)
  show ?thesis
  proof (cases "is_digit a \<and> is_digit b")
    case True
    then show ?thesis
      unfolding l r using two_digits_month [of a b] by blast
  next
    case False
    then show ?thesis
      unfolding l r using char_digits nonzero_is_digit [of b] by auto
  qed
next
  case 4
  then show ?thesis by (auto simp: group_matches_def in_alt_self month_text_def)
qed

lemma matches_year: "group_matches Year y \<longleftrightarrow> year_text y"
  by (auto simp: group_matches_def in_alt_self year_text_def)

lemma matches_lit: "group_matches (Lit c) p \<longleftrightarrow> p = [c]"
  by (auto simp: group_matches_def in_alt_self)

lemma unique_cut:
  assumes "c \<notin> set a" and "c \<notin> set a'" and "a @ c # r = a' @ c # r'"
  shows "a = a' \<and> r = r'"
proof -
  have "takeWhile (\<lambda>x. x \<noteq> c) (a @ c # r) = a"
    using assms(1) by (auto simp: takeWhile_tail)
  moreover have "takeWhile (\<lambda>x. x \<noteq> c) (a' @ c # r') = a'"
    using assms(2) by (auto simp: takeWhile_tail)
  ultimately have "a = a'" using assms(3) by simp
  with assms(3) show ?thesis by simp
qed

lemma map_fst_five:
  assumes "map fst gs = [k1, k2, k3, k4, k5]"
  obtains p1 p2 p3 p4 p5 where "gs = [(k1, p1), (k2, p2), (k3, p3), (k4, p4), (k5, p5)]"
proof -
  from assms obtain g1 g2 g3 g4 g5 where gs: "gs = [g1, g2, g3, g4, g5]"
    by (auto simp: map_eq_Cons_conv)
  with assms have "g1 = (k1, snd g1)" "g2 = (k2, snd g2)" "g3 = (k3, snd g3)"
    "g4 = (k4, snd g4)" "g5 = (k5, snd g5)"
    by (auto simp: prod_eq_iff)
  with gs that show ?thesis by metis
qed

lemma re_match_five:
  assumes "re_match [g1, Lit c, g2, Lit c, Year] s = Some (gs, rest)"
  obtains p1 p2 y where
    "gs = [(g1, p1), (Lit c, [c]), (g2, p2), (Lit c, [c]), (Year, y)]"
    "s = p1 @ c # p2 @ c # y @ rest"
    "group_matches g1 p1" "group_matches g2 p2" "year_text y"
proof -
  from re_match_sound [OF assms]
  have a: "map fst gs = [g1, Lit c, g2, Lit c, Year]"
    and b: "s = concat (map snd gs) @ rest"
    and m: "\<forall>(d, p) \<in> set gs. group_matches d p"
    by blast+
  from a obtain p1 l1 p2 l2 y where gs: "gs = [(g1, p1), (Lit c, l1), (g2, p2), (Lit c, l2), (Year, y)]"
    by (rule map_fst_five)
  from m gs have "group_matches g1 p1" "l1 = [c]" "group_matches g2 p2" "l2 = [c]" "year_text y"
    by (simp_all add: matches_lit matches_year)
  with gs b that show ?thesis by simp
qed

lemma year_text_length: "year_text y \<Longrightarrow> length y = 4"
  by (simp add: year_text_def)

lemma re_match_format:
  assumes free1: "\<And>p. group_matches g1 p \<Longrightarrow> c \<notin> set p"
    and free2: "\<And>p. group_matches g2 p \<Longrightarrow> c \<notin> set p"
  shows "re_match [g1, Lit c, g2, Lit c, Year] s =
           Some ([(g1, p1), (Lit c, [c]), (g2, p2), (Lit c, [c]), (Year, y)], []) \<longleftrightarrow>
         s = p1 @ c # p2 @ c # y \<and> group_matches g1 p1 \<and> group_matches g2 p2 \<and> year_text y"
    (is "?L \<longleftrightarrow> ?R")
proof
  assume ?L
  then show ?R by (rule re_match_five) simp
next
  assume r: ?R
  let ?gs = "[(g1, p1), (Lit c, [c]), (g2, p2), (Lit c, [c]), (Year, y)]"
  have "re_match (map fst ?gs) (concat (map snd ?gs) @ []) \<noteq> None"
    using r by (intro re_match_complete) (simp_all add: matches_lit matches_year)
  then obtain gs' rest' where m: "re_match [g1, Lit c, g2, Lit c, Year] s = Some (gs', rest')"
    using r by auto
  then obtain q1 q2 z where
    q: "gs' = [(g1, q1), (Lit c, [c]), (g2, q2), (Lit c, [c]), (Year, z)]"
       "s = q1 @ c # q2 @ c # z @ rest'"
       "group_matches g1 q1" "group_matches g2 q2" "year_text z"
    by (rule re_match_five)
  from r q(2) have e1: "p1 @ c # (p2 @ c # y) = q1 @ c # (q2 @ c # z @ rest')" by simp
  from unique_cut [OF _ _ e1] r q(3) free1
  have p1: "p1 = q1" and e2: "p2 @ c # y = q2 @ c # (z @ rest')" by auto
  from unique_cut [OF _ _ e2] r q(4) free2
  have p2: "p2 = q2" and e3: "y = z @ rest'" by auto
  from r q(5) have "length y = length z" by (simp add: year_text_length)
  with e3 have "rest' = []" "y = z" by auto
  with m q(1) p1 p2 show ?L by simp
qed

lemma group_value_digits: "list_all is_digit g \<Longrightarrow> group_value g = nat_of_digits g"
  by (simp add: group_value_def list_all_iff)

lemma day_text_chars: "day_text d \<Longrightarrow> c \<in> set d \<Longrightarrow> is_digit c \<or> c = CHR '' ''"
proof (cases d rule: list_shape)
  case (3 a b)
  assume "day_text d" "c \<in> set d"
  with 3 show ?thesis by (auto simp: day_text_def nonzero_is_digit)
qed (auto simp: day_text_def)

lemma month_text_chars: "month_text m \<Longrightarrow> c \<in> set m \<Longrightarrow> is_digit c"
  by (auto simp: month_text_def list_all_iff)

lemma separators:
  "\<not> is_digit (CHR ''/'')" "\<not> is_digit (CHR ''-'')"
  by (simp_all add: is_digit_def)

lemma day_free: "group_matches Day p \<Longrightarrow> c = CHR ''/'' \<or> c = CHR ''-'' \<Longrightarrow> c \<notin> set p"
  using day_text_chars [of p c] separators by (auto simp: matches_day)

lemma month_free: "group_matches Month p \<Longrightarrow> c = CHR ''/'' \<or> c = CHR ''-'' \<Longrightarrow> c \<notin> set p"
  using month_text_chars [of p c] separators by (auto simp: matches_month)

lemma strptime_match:
  assumes "strptime s f \<noteq> None"
  obtains gs where "re_match f s = Some (gs, [])"
  using assms by (auto simp: strptime_def split: option.splits if_splits)

lemma strptime_value:
  assumes "re_match f s = Some (gs, [])"
    and "map_of gs Day = Some d" and "map_of gs Month = Some mo" and "map_of gs Year = Some y"
  shows "strptime s f \<noteq> None \<longleftrightarrow> valid_date (group_value y) (group_value mo) (group_value d)"
  using assms by (simp add: strptime_def Let_def)

lemma strptime_dmy:
  "strptime s [Day, Lit (CHR ''/''), Month, Lit (CHR ''/''), Year] \<noteq> None \<longleftrightarrow>
   (\<exists>d m y. s = d @ ''/'' @ m @ ''/'' @ y \<and> day_text d \<and> month_text m \<and> year_text y \<and>
      valid_date (nat_of_digits y) (nat_of_digits m) (group_value d))"
  (is "?L \<longleftrightarrow> ?R")
proof
  assume l: ?L
  then obtain gs where m: "re_match [Day, Lit (CHR ''/''), Month, Lit (CHR ''/''), Year] s = Some (gs, [])"
    by (rule strptime_match)
  define rest :: string where "rest = []"
  have rest: "rest = []" by (simp add: rest_def)
  from m obtain d mo y where
    q: "gs = [(Day, d), (Lit (CHR ''/''), ''/''), (Month, mo), (Lit (CHR ''/''), ''/''), (Year, y)]"
       "s = d @ CHR ''/'' # mo @ CHR ''/'' # y @ rest"
       "group_matches Day d" "group_matches Month mo" "year_text y"
    unfolding rest by (rule re_match_five)
  from q(4,5) have v: "group_value mo = nat_of_digits mo" "group_value y = nat_of_digits y"
    by (simp_all add: group_value_digits matches_month month_text_def year_text_def)
  from l v have "valid_date (nat_of_digits y) (nat_of_digits mo) (group_value d)"
    using strptime_value [OF m, of d mo y] by (simp add: q(1))
  with q rest show ?R
    by (intro exI [of _ d] exI [of _ mo] exI [of _ y]) (simp add: matches_day matches_month)
next
  assume ?R
  then obtain d mo y where r: "s = d @ ''/'' @ mo @ ''/'' @ y" "day_text d" "month_text mo"
    "year_text y" "valid_date (nat_of_digits y) (nat_of_digits mo) (group_value d)"
    by blast
  from r(3,4) have v: "group_value mo = nat_of_digits mo" "group_value y = nat_of_digits y"
    by (simp_all add: group_value_digits month_text_def year_text_def)
  have "re_match [Day, Lit (CHR ''/''), Month, Lit (CHR ''/''), Year] s =
        Some ([(Day, d), (Lit (CHR ''/''), ''/''), (Month, mo), (Lit (CHR ''/''), ''/''), (Year, y)], [])"
    using r by (subst re_match_format) (simp_all add: day_free month_free matches_day matches_month)
  from strptime_value [OF this, of d mo y] r(5) v show ?L
    by simp
qed

lemma strptime_mdy:
  "strptime s [Month, Lit (CHR ''-''), Day, Lit (CHR ''-''), Year] \<noteq> None \<longleftrightarrow>
   (\<exists>m d y. s = m @ ''-'' @ d @ ''-'' @ y \<and> month_text m \<and> day_text d \<and> year_text y \<and>
      valid_date (nat_of_digits y) (nat_of_digits m) (group_value d))"
  (is "?L \<longleftrightarrow> ?R")
proof
  assume l: ?L
  then obtain gs where m: "re_match [Month, Lit (CHR ''-''), Day, Lit (CHR ''-''), Year] s = Some (gs, [])"
    by (rule strptime_match)
  define rest :: string where "rest = []"
  have rest: "rest = []" by (simp add: rest_def)
  from m obtain mo d y where
    q: "gs = [(Month, mo), (Lit (CHR ''-''), ''-''), (Day, d), (Lit (CHR ''-''), ''-''), (Year, y)]"
       "s = mo @ CHR ''-'' # d @ CHR ''-'' # y @ rest"
       "group_matches Month mo" "group_matches Day d" "year_text y"
    unfolding rest by (rule re_match_five)
  from q(3,5) have v: "group_value mo = nat_of_digits mo" "group_value y = nat_of_digits y"
    by (simp_all add: group_value_digits matches_month month_text_def year_text_def)
  from l v have "valid_date (nat_of_digits y) (nat_of_digits mo) (group_value d)"
    using strptime_value [OF m, of d mo y] by (simp add: q(1))
  with q rest show ?R
    by (intro exI [of _ mo] exI [of _ d] exI [of _ y]) (simp add: matches_day matches_month)
next
  assume ?R
  then obtain mo d y where r: "s = mo @ ''-'' @ d @ ''-'' @ y" "month_text mo" "day_text d"
    "year_text y" "valid_date (nat_of_digits y) (nat_of_digits mo) (group_value d)"
    by blast
  from r(2,4) have v: "group_value mo = nat_of_digits mo" "group_value y = nat_of_digits y"
    by (simp_all add: group_value_digits month_text_def year_text_def)
  have "re_match [Month, Lit (CHR ''-''), Day, Lit (CHR ''-''), Year] s =
        Some ([(Month, mo), (Lit (CHR ''-''), ''-''), (Day, d), (Lit (CHR ''-''), ''-''), (Year, y)], [])"
    using r by (subst re_match_format) (simp_all add: day_free month_free matches_day matches_month)
  from strptime_value [OF this, of d mo y] r(5) v show ?L
    by simp
qed

lemma validate_date_iff:
  "validate_date s \<longleftrightarrow>
     strptime s [Day, Lit (CHR ''/''), Month, Lit (CHR ''/''), Year] \<noteq> None \<or>
     strptime s [Month, Lit (CHR ''-''), Day, Lit (CHR ''-''), Year] \<noteq> None"
  by (auto simp: validate_date_def formats_def split: option.splits)

lemma validate_date_texts: "validate_date s \<longleftrightarrow> dmy_text s \<or> mdy_text s"
  unfolding validate_date_iff strptime_dmy strptime_mdy dmy_text_def mdy_text_def ..

lemma year_text_chars: "year_text y \<Longrightarrow> c \<in> set y \<Longrightarrow> is_digit c"
  by (auto simp: year_text_def list_all_iff)

lemma field_chars:
  assumes "day_text d" and "month_text m" and "year_text y" and "c \<in> set d \<union> set m \<union> set y"
  shows "is_digit c \<or> c = CHR '' ''"
  using assms day_text_chars [of d c] month_text_chars [of m c] year_text_chars [of y c] by auto

lemma dmy_no_dash: "dmy_text s \<Longrightarrow> CHR ''-'' \<notin> set s"
proof
  assume "dmy_text s" and c: "CHR ''-'' \<in> set s"
  then obtain d m y where r: "s = d @ ''/'' @ m @ ''/'' @ y" "day_text d" "month_text m" "year_text y"
    unfolding dmy_text_def by blast
  from c r(1) have "CHR ''-'' \<in> set d \<union> set m \<union> set y" by auto
  from field_chars [OF r(2-4) this] show False by (simp add: is_digit_def)
qed

lemma mdy_no_slash: "mdy_text s \<Longrightarrow> CHR ''/'' \<notin> set s"
proof
  assume "mdy_text s" and c: "CHR ''/'' \<in> set s"
  then obtain m d y where r: "s = m @ ''-'' @ d @ ''-'' @ y" "month_text m" "day_text d" "year_text y"
    unfolding mdy_text_def by blast
  from c r(1) have "CHR ''/'' \<in> set d \<union> set m \<union> set y" by auto
  from field_chars [OF r(3,2,4) this] show False by (simp add: is_digit_def)
qed

lemma dmy_has_slash: "dmy_text s \<Longrightarrow> CHR ''/'' \<in> set s"
  unfolding dmy_text_def by auto

lemma mdy_has_dash: "mdy_text s \<Longrightarrow> CHR ''-'' \<in> set s"
  unfolding mdy_text_def by auto

lemma day_text_free: "day_text d \<Longrightarrow> CHR ''/'' \<notin> set d \<and> CHR ''-'' \<notin> set d"
  using day_free [of d] by (simp add: matches_day)

lemma month_text_free: "month_text m \<Longrightarrow> CHR ''/'' \<notin> set m \<and> CHR ''-'' \<notin> set m"
  using month_free [of m] by (simp add: matches_month)

lemma same_fields:
  assumes "a @ c # b @ c # y @ t = a' @ c # b' @ c # y'"
    and "c \<notin> set a" "c \<notin> set a'" "c \<notin> set b" "c \<notin> set b'"
    and "length y = length y'"
  shows "t = []"
proof -
  from unique_cut [OF assms(2,3), of "b @ c # y @ t" "b' @ c # y'"] assms(1)
  have "b @ c # y @ t = b' @ c # y'" by simp
  from unique_cut [OF assms(4,5) this] have "y @ t = y'" by simp
  then have "length (y @ t) = length y'" by simp
  with assms(6) show ?thesis by simp
qed

lemma dmy_no_trailing:
  assumes "dmy_text s" and "dmy_text (s @ t)"
  shows "t = []"
proof -
  from assms(1) obtain d m y where r: "s = d @ ''/'' @ m @ ''/'' @ y" "day_text d" "month_text m" "year_text y"
    unfolding dmy_text_def by blast
  from assms(2) obtain d' m' y' where r': "s @ t = d' @ ''/'' @ m' @ ''/'' @ y'" "day_text d'" "month_text m'" "year_text y'"
    unfolding dmy_text_def by blast
  from r(1) r'(1) have e: "d @ CHR ''/'' # m @ CHR ''/'' # y @ t = d' @ CHR ''/'' # m' @ CHR ''/'' # y'"
    by simp
  show ?thesis
    using r(2-4) r'(2-4)
    by (intro same_fields [OF e]) (simp_all add: day_text_free month_text_free year_text_length)
qed

lemma mdy_no_trailing:
  assumes "mdy_text s" and "mdy_text (s @ t)"
  shows "t = []"
proof -
  from assms(1) obtain m d y where r: "s = m @ ''-'' @ d @ ''-'' @ y" "month_text m" "day_text d" "year_text y"
    unfolding mdy_text_def by blast
  from assms(2) obtain m' d' y' where r': "s @ t = m' @ ''-'' @ d' @ ''-'' @ y'" "month_text m'" "day_text d'" "year_text y'"
    unfolding mdy_text_def by blast
  from r(1) r'(1) have e: "m @ CHR ''-'' # d @ CHR ''-'' # y @ t = m' @ CHR ''-'' # d' @ CHR ''-'' # y'"
    by simp
  show ?thesis
    using r(2-4) r'(2-4)
    by (intro same_fields [OF e]) (simp_all add: day_text_free month_text_free year_text_length)
qed

lemma no_trailing_text:
  assumes "validate_date s" and "validate_date (s @ t)"
  shows "t = []"
proof -
  from assms have a: "dmy_text s \<or> mdy_text s" and b: "dmy_text (s @ t) \<or> mdy_text (s @ t)"
    by (simp_all add: validate_date_texts)
  from a show ?thesis
  proof
    assume s: "dmy_text s"
    then have "CHR ''/'' \<in> set s" by (rule dmy_has_slash)
    then have "CHR ''/'' \<in> set (s @ t)" by simp
    with b mdy_no_slash have "dmy_text (s @ t)" by blast
    with s show ?thesis by (rule dmy_no_trailing)
  next
    assume s: "mdy_text s"
    then have "CHR ''-'' \<in> set s" by (rule mdy_has_dash)
    then have "CHR ''-'' \<in> set (s @ t)" by simp
    with b dmy_no_dash have "mdy_text (s @ t)" by blast
    with s show ?thesis by (rule mdy_no_trailing)
  qed
qed

lemma date_reason:
  "''Invalid date (dd/mm/yyyy or mm-dd-yyyy)'' \<in> set (fst (collect_errors row seen)) \<longleftrightarrow>
     \<not> (\<exists>v. date row = Some v \<and> validate_date v)"
  by (cases "date row") (simp_all add: in_errors)

text \<open>
  Claim C3. A row gets the reason \<^verbatim>\<open>Invalid date (dd/mm/yyyy or mm-dd-yyyy)\<close> exactly
  when its date is missing or fails \<^verbatim>\<open>validate_date\<close>. A text passes
  \<^verbatim>\<open>validate_date\<close> exactly when the whole of it is day/month/year with \<^verbatim>\<open>/\<close> or
  month-day-year with \<^verbatim>\<open>-\<close>; a text that passes no longer passes with anything
  appended. \<^verbatim>\<open>31/12/2024\<close> and \<^verbatim>\<open>12-31-2024\<close> pass, \<^verbatim>\<open>2024/12/31\<close> fails.
\<close>

theorem date_passes_iff_pattern:
  "(''Invalid date (dd/mm/yyyy or mm-dd-yyyy)'' \<in> set (fst (collect_errors row seen)) \<longleftrightarrow>
      \<not> (\<exists>v. date row = Some v \<and> validate_date v)) \<and>
   (validate_date s \<longleftrightarrow> dmy_text s \<or> mdy_text s) \<and>
   (validate_date s \<and> t \<noteq> [] \<longrightarrow> \<not> validate_date (s @ t)) \<and>
   validate_date ''31/12/2024'' \<and> validate_date ''12-31-2024'' \<and> \<not> validate_date ''2024/12/31''"
proof (intro conjI)
  show "''Invalid date (dd/mm/yyyy or mm-dd-yyyy)'' \<in> set (fst (collect_errors row seen)) \<longleftrightarrow>
      \<not> (\<exists>v. date row = Some v \<and> validate_date v)"
    by (rule date_reason)
  show "validate_date s \<longleftrightarrow> dmy_text s \<or> mdy_text s"
    by (rule validate_date_texts)
  show "validate_date s \<and> t \<noteq> [] \<longrightarrow> \<not> validate_date (s @ t)"
    using no_trailing_text [of s t] by blast
  show "validate_date ''31/12/2024''" by code_simp
  show "validate_date ''12-31-2024''" by code_simp
  show "\<not> validate_date ''2024/12/31''" by code_simp
qed

theorem date_passes_iff_pattern_witness:
  "''Invalid date (dd/mm/yyyy or mm-dd-yyyy)'' \<in>
     set (fst (collect_errors (sound_row ''A''\<lparr>date := Some ''2024/12/31''\<rparr>) {})) \<and>
   ''Invalid date (dd/mm/yyyy or mm-dd-yyyy)'' \<in>
     set (fst (collect_errors (sound_row ''A''\<lparr>date := None\<rparr>) {})) \<and>
   ''Invalid date (dd/mm/yyyy or mm-dd-yyyy)'' \<notin> set (fst (collect_errors (sound_row ''A'') {})) \<and>
   (dmy_text ''31/12/2024'' \<or> mdy_text ''31/12/2024'') \<and>
   \<not> validate_date (''31/12/2024'' @ '' '')"
proof -
  note a = date_passes_iff_pattern [of "sound_row ''A''\<lparr>date := Some ''2024/12/31''\<rparr>" "{}" "''31/12/2024''" "'' ''"]
  note b = date_passes_iff_pattern [of "sound_row ''A''\<lparr>date := None\<rparr>" "{}" "''31/12/2024''" "'' ''"]
  note c = date_passes_iff_pattern [of "sound_row ''A''" "{}" "''31/12/2024''" "'' ''"]
  have ok: "validate_date ''31/12/2024''"
    by (rule a [THEN conjunct2, THEN conjunct2, THEN conjunct2, THEN conjunct1])
  have no: "\<not> validate_date ''2024/12/31''"
    by (rule a [THEN conjunct2, THEN conjunct2, THEN conjunct2, THEN conjunct2, THEN conjunct2])
  have 1: "''Invalid date (dd/mm/yyyy or mm-dd-yyyy)'' \<in>
     set (fst (collect_errors (sound_row ''A''\<lparr>date := Some ''2024/12/31''\<rparr>) {}))"
    using a [THEN conjunct1] no by simp
  have 2: "''Invalid date (dd/mm/yyyy or mm-dd-yyyy)'' \<in>
     set (fst (collect_errors (sound_row ''A''\<lparr>date := None\<rparr>) {}))"
    using b [THEN conjunct1] by simp
  have 3: "''Invalid date (dd/mm/yyyy or mm-dd-yyyy)'' \<notin> set (fst (collect_errors (sound_row ''A'') {}))"
    using c [THEN conjunct1] ok by (simp add: sound_row_def)
  have 4: "dmy_text ''31/12/2024'' \<or> mdy_text ''31/12/2024''"
    using a [THEN conjunct2, THEN conjunct1] ok by simp
  have 5: "\<not> validate_date (''31/12/2024'' @ '' '')"
    using a [THEN conjunct2, THEN conjunct2, THEN conjunct1] ok by simp
  from 1 2 3 4 5 show ?thesis by (intro conjI)
qed

end
